theory Spec2Isabelle
  imports Main "HOL-Library.Word"
begin

unbundle bit_operations_syntax

section \<open>JavaScript values used by the entity store\<close>

text \<open>
  The store keeps its flags in \<open>Uint32Array\<close> views: an element is a 32-bit word, a read
  outside the view yields \<open>undefined\<close> and a write outside the view is ignored.
  Query masks are plain \<open>number[]\<close> arrays: an element is an integer valued Number, or is
  missing (a hole, which reads as \<open>undefined\<close>).  The bitwise operators convert both
  operands with ToInt32 (\<open>undefined\<close> becomes 0, a Number is reduced modulo \<open>2 ^ 32\<close>,
  an element of a \<open>Uint32Array\<close> keeps its bits) and deliver a signed 32-bit Number,
  \<open>sint\<close> of the resulting word.  Storing a Number into a \<open>Uint32Array\<close> keeps its
  low 32 bits.
\<close>

type_synonym u32 = "32 word"
type_synonym EntityId = nat
type_synonym ComponentType = nat
type_synonym mask = "int option list"

definition ToInt32 :: "int option \<Rightarrow> u32" where
  "ToInt32 v = (case v of None \<Rightarrow> 0 | Some n \<Rightarrow> word_of_int n)"

definition elem_bits :: "u32 option \<Rightarrow> u32" where
  "elem_bits v = (case v of None \<Rightarrow> 0 | Some w \<Rightarrow> w)"

definition ta_get :: "u32 list \<Rightarrow> nat \<Rightarrow> u32 option" where
  "ta_get buf i = (if i < length buf then Some (buf ! i) else None)"

definition ta_put :: "u32 list \<Rightarrow> nat \<Rightarrow> u32 \<Rightarrow> u32 list" where
  "ta_put buf i w = (if i < length buf then buf[i := w] else buf)"

definition arr_get :: "mask \<Rightarrow> nat \<Rightarrow> int option" where
  "arr_get m i = (if i < length m then m ! i else None)"

definition arr_put :: "mask \<Rightarrow> nat \<Rightarrow> int \<Rightarrow> mask" where
  "arr_put m i v =
     (if i < length m then m[i := Some v] else m @ replicate (i - length m) None @ [Some v])"

definition arr_set_length :: "mask \<Rightarrow> nat \<Rightarrow> mask" where
  "arr_set_length m n = (if n \<le> length m then take n m else m @ replicate (n - length m) None)"

definition arr_fill :: "mask \<Rightarrow> int \<Rightarrow> nat \<Rightarrow> nat \<Rightarrow> mask" where
  "arr_fill m v start fin =
     (let k = min start (length m); final = min fin (length m)
      in map (\<lambda>i. if k \<le> i \<and> i < final then Some v else m ! i) [0..<length m])"

datatype jsval = JUndefined | JNull | JNum int | JRef EntityId

section \<open>Collaborators of the store\<close>

datatype Type = T_boolean | T_uint32 | T_float64 | T_staticString | T_ref | T_backrefs | T_object

record Field =
  name :: string
  type :: Type

text \<open>
  A controller owns the presence bit of one component type.  The operations of the
  store use \<open>flagMask\<close> only as an operand of \<open>&\<close>, \<open>|\<close> and \<open>~\<close>, that is after
  ToInt32, so it is kept as the 32-bit pattern.
\<close>

record Controller =
  flagOffset :: nat
  flagMask :: u32
  ctrl_fields :: "Field list"

record ReadWriteMasks =
  read :: mask
  "write" :: mask

text \<open>
  The dispatcher is used through \<open>rwMasks\<close> and \<open>flush()\<close> only; a call of \<open>flush()\<close>
  is recorded by counting it.
\<close>

record Dispatcher =
  rwMasks :: "ReadWriteMasks option"
  flushes :: nat

section \<open>The pool of reusable handles\<close>

text \<open>
  Handles are objects with identity: an object is an index into the object heap, and the
  pool's list holds such indices.  \<open>ent_id\<close> is the field \<open>__id\<close> (\<open>None\<close> is
  \<open>undefined\<close>), and \<open>has_entities\<close> tells whether \<open>__entities\<close> has been set, that
  is whether the handle was ever bound.
\<close>

record Entity =
  has_entities :: bool
  ent_id :: "EntityId option"
  joined :: "string list option"

record Pool =
  list :: "nat list"
  "next" :: nat

definition new_Class :: "Entity list \<Rightarrow> nat \<times> Entity list" where
  "new_Class h = (length h, h @ [\<lparr>has_entities = False, ent_id = None, joined = None\<rparr>])"

fun Pool_fill :: "nat \<Rightarrow> Entity list \<Rightarrow> nat list \<times> Entity list" where
  "Pool_fill 0 h = ([], h)"
| "Pool_fill (Suc n) h =
     (let (r, h1) = new_Class h; (rs, h2) = Pool_fill n h1 in (r # rs, h2))"

definition new_Pool :: "nat \<Rightarrow> Entity list \<Rightarrow> Pool \<times> Entity list" where
  "new_Pool initialSize h =
     (let (rs, h') = Pool_fill initialSize h in (\<lparr>list = rs, next = 0\<rparr>, h'))"

definition Pool_grow :: "Pool \<times> Entity list \<Rightarrow> Pool \<times> Entity list" where
  "Pool_grow ph =
     (let (p, h) = ph in
      if next p = length (list p)
      then (let (r, h') = new_Class h in (p\<lparr>list := list p @ [r]\<rparr>, h'))
      else (p, h))"

definition list_at :: "Pool \<Rightarrow> nat \<Rightarrow> nat option" where
  "list_at p i = (if i < length (list p) then Some (list p ! i) else None)"


definition borrow :: "Pool \<times> Entity list \<Rightarrow> nat option \<times> Pool \<times> Entity list" where
  "borrow ph = (let (p, h) = Pool_grow ph in (list_at p (next p), p, h))"

definition reset :: "Pool \<Rightarrow> Pool" where
  "reset p = p\<lparr>next := 0\<rparr>"

section \<open>The entity store\<close>

text \<open>
  \<open>controllers\<close> is the \<open>Map\<close> from component types to controllers, kept as a list of
  entries with distinct keys.  \<open>current\<close>, \<open>previous\<close>, \<open>mutations\<close> and \<open>filtered\<close>
  are the four views of the WebAssembly memory, which has \<open>blocks\<close> pages.  \<open>heap\<close>
  holds the handle objects and \<open>storage\<close> the field values kept by the controllers.
\<close>

record Entities =
  maxNum :: nat
  stride :: nat
  nextId :: nat
  flagSegmentSize :: nat
  filterSegmentSize :: nat
  blocks :: nat
  current :: "u32 list"
  previous :: "u32 list"
  mutations :: "u32 list"
  filtered :: "u32 list"
  pool :: Pool
  heap :: "Entity list"
  controllers :: "(ComponentType \<times> Controller) list"
  types :: "ComponentType list"
  dispatcher :: Dispatcher
  storage :: "ComponentType \<times> EntityId option \<times> string \<rightharpoonup> jsval"

datatype error =
    AlreadyHas ComponentType
  | DoesntHave ComponentType
  | NotMarked ComponentType bool
  | BadArguments
  | MaxEntitiesReached nat
  | TypeError
  | RangeError
  | LinkError
  | WasmTrap

type_synonym 'a result = "(error + 'a) \<times> Entities"

subsection \<open>step\<close>

definition ta_set :: "u32 list \<Rightarrow> u32 list \<Rightarrow> u32 list option" where
  "ta_set dst src =
     (if length src \<le> length dst then Some (src @ drop (length src) dst) else None)"

definition ta_fill :: "u32 list \<Rightarrow> u32 \<Rightarrow> u32 list" where
  "ta_fill buf v = map (\<lambda>_. v) buf"

definition step :: "Entities \<Rightarrow> unit result" where
  "step s =
     (case ta_set (previous s) (current s) of
        None \<Rightarrow> (Inl RangeError, s)
      | Some p \<Rightarrow> (Inr (), s\<lparr>previous := p, mutations := ta_fill (mutations s) 0\<rparr>))"

subsection \<open>Flags\<close>

definition maskHasFlag :: "Entities \<Rightarrow> mask \<Rightarrow> ComponentType \<Rightarrow> error + bool" where
  "maskHasFlag s m t =
     (case map_of (controllers s) t of
        None \<Rightarrow> Inl TypeError
      | Some ctrl \<Rightarrow>
          Inr (sint (ToInt32 (arr_get m (flagOffset ctrl)) AND flagMask ctrl) \<noteq> 0))"

definition extendMaskAndSetFlag :: "Entities \<Rightarrow> mask \<Rightarrow> ComponentType \<Rightarrow> error + mask" where
  "extendMaskAndSetFlag s m t =
     (case map_of (controllers s) t of
        None \<Rightarrow> Inl TypeError
      | Some ctrl \<Rightarrow>
          (let off = flagOffset ctrl;
               m1 = (if off \<ge> length m
                     then (let m' = arr_set_length m (off + 1) in arr_fill m' 0 (length m') off)
                     else m)
           in Inr (arr_put m1 off (sint (ToInt32 (arr_get m1 off) OR flagMask ctrl)))))"

definition createFilledMask :: "Entities \<Rightarrow> mask" where
  "createFilledMask s = replicate ((length (controllers s) + 31) div 32) (Some 4294967295)"

definition getFields :: "Entities \<Rightarrow> ComponentType \<Rightarrow> error + Field list" where
  "getFields s t = (case map_of (controllers s) t of None \<Rightarrow> Inl TypeError | Some ctrl \<Rightarrow> Inr (ctrl_fields ctrl))"

definition hasFlag :: "Entities \<Rightarrow> EntityId \<Rightarrow> ComponentType \<Rightarrow> error + bool" where
  "hasFlag s eid t =
     (case map_of (controllers s) t of
        None \<Rightarrow> Inl TypeError
      | Some ctrl \<Rightarrow>
          Inr (sint (elem_bits (ta_get (current s) (eid * stride s + flagOffset ctrl))
                 AND flagMask ctrl) \<noteq> 0))"

definition setFlag :: "EntityId \<Rightarrow> ComponentType \<Rightarrow> Entities \<Rightarrow> unit result" where
  "setFlag eid t s =
     (case map_of (controllers s) t of
        None \<Rightarrow> (Inl TypeError, s)
      | Some ctrl \<Rightarrow>
          (let i = eid * stride s + flagOffset ctrl
           in (Inr (), s\<lparr>current := ta_put (current s) i
                   (elem_bits (ta_get (current s) i) OR flagMask ctrl)\<rparr>)))"

definition clearFlag :: "EntityId \<Rightarrow> ComponentType \<Rightarrow> Entities \<Rightarrow> unit result" where
  "clearFlag eid t s =
     (case map_of (controllers s) t of
        None \<Rightarrow> (Inl TypeError, s)
      | Some ctrl \<Rightarrow>
          (let i = eid * stride s + flagOffset ctrl
           in (Inr (), s\<lparr>current := ta_put (current s) i
                   (elem_bits (ta_get (current s) i) AND NOT (flagMask ctrl))\<rparr>)))"

definition markMutated :: "EntityId \<Rightarrow> ComponentType \<Rightarrow> Entities \<Rightarrow> unit result" where
  "markMutated eid t s =
     (case map_of (controllers s) t of
        None \<Rightarrow> (Inl TypeError, s)
      | Some ctrl \<Rightarrow>
          (let i = eid * stride s + flagOffset ctrl
           in (Inr (), s\<lparr>mutations := ta_put (mutations s) i
                   (elem_bits (ta_get (mutations s) i) OR flagMask ctrl)\<rparr>)))"

text \<open>
  \<open>isAllocated\<close> compares each element with \<open>!== 0\<close>, so an element outside the view
  (\<open>undefined\<close>) counts as allocated.
\<close>

fun isAllocated_from :: "u32 list \<Rightarrow> nat \<Rightarrow> nat \<Rightarrow> nat \<Rightarrow> bool" where
  "isAllocated_from entities base offset 0 = False"
| "isAllocated_from entities base offset (Suc k) =
     (if ta_get entities (base + offset) \<noteq> Some 0 then True
      else isAllocated_from entities base (offset + 1) k)"

definition isAllocated :: "Entities \<Rightarrow> EntityId \<Rightarrow> u32 list \<Rightarrow> bool" where
  "isAllocated s eid entities = isAllocated_from entities (eid * stride s) 0 (stride s)"

subsection \<open>Matching\<close>

fun match_pos :: "u32 list \<Rightarrow> nat \<Rightarrow> mask \<Rightarrow> nat \<Rightarrow> bool" where
  "match_pos entities offset [] i = True"
| "match_pos entities offset (maskByte # rest) i =
     (if Some (sint (elem_bits (ta_get entities (offset + i)) AND ToInt32 maskByte)) \<noteq> maskByte
      then False
      else match_pos entities offset rest (i + 1))"

fun match_neg :: "u32 list \<Rightarrow> nat \<Rightarrow> mask \<Rightarrow> nat \<Rightarrow> bool" where
  "match_neg entities offset [] i = True"
| "match_neg entities offset (maskByte # rest) i =
     (if sint (elem_bits (ta_get entities (offset + i)) AND ToInt32 maskByte) \<noteq> 0
      then False
      else match_neg entities offset rest (i + 1))"

definition match :: "Entities \<Rightarrow> EntityId \<Rightarrow> u32 list \<Rightarrow> mask option \<Rightarrow> mask option \<Rightarrow> bool" where
  "match s eid entities positiveMask negativeMask =
     (let offset = eid * stride s in
      if (case positiveMask of None \<Rightarrow> False | Some pm \<Rightarrow> \<not> match_pos entities offset pm 0)
      then False
      else if (case negativeMask of None \<Rightarrow> False | Some nm \<Rightarrow> \<not> match_neg entities offset nm 0)
      then False
      else True)"

definition matchCurrent :: "Entities \<Rightarrow> EntityId \<Rightarrow> mask option \<Rightarrow> mask option \<Rightarrow> bool" where
  "matchCurrent s eid positiveMask negativeMask = match s eid (current s) positiveMask negativeMask"

definition matchPrevious :: "Entities \<Rightarrow> EntityId \<Rightarrow> mask option \<Rightarrow> mask option \<Rightarrow> bool" where
  "matchPrevious s eid positiveMask negativeMask = match s eid (previous s) positiveMask negativeMask"

definition matchMutated :: "Entities \<Rightarrow> EntityId \<Rightarrow> mask option \<Rightarrow> mask option \<Rightarrow> bool" where
  "matchMutated s eid positiveMask negativeMask = match s eid (mutations s) positiveMask negativeMask"

subsection \<open>Controllers\<close>

text \<open>
  Modelled from the spec: the \<open>Controller\<close> class (its file, \<open>component.ts\<close>, is not
  among the sources).  A component type owns exactly one bit, assigned in registration
  order: the controller with ordinal \<open>componentId\<close> has its bit in word
  \<open>componentId div 32\<close> at position \<open>componentId mod 32\<close>.  \<open>init\<close> stores the given
  values of the declared fields, \<open>bind\<close> returns a view of the component of one slot, and
  assigning a field through the view stores the value.
\<close>

definition new_Controller :: "nat \<Rightarrow> Field list \<Rightarrow> Controller" where
  "new_Controller componentId fs =
     \<lparr>flagOffset = componentId div 32, flagMask = push_bit (componentId mod 32) 1,
      ctrl_fields = fs\<rparr>"

datatype component = Component ComponentType "EntityId option" bool

definition Controller_init ::
  "Controller \<Rightarrow> ComponentType \<Rightarrow> EntityId option \<Rightarrow> (string \<times> jsval) list option
     \<Rightarrow> (ComponentType \<times> EntityId option \<times> string \<rightharpoonup> jsval)
     \<Rightarrow> (ComponentType \<times> EntityId option \<times> string \<rightharpoonup> jsval)" where
  "Controller_init ctrl t eid vals st =
     fold (\<lambda>f st'. st'((t, eid, name f) \<mapsto>
             (case vals of None \<Rightarrow> JUndefined
              | Some vs \<Rightarrow> (case map_of vs (name f) of None \<Rightarrow> JUndefined | Some v \<Rightarrow> v))))
          (ctrl_fields ctrl) st"

definition set_field :: "component \<Rightarrow> string \<Rightarrow> jsval \<Rightarrow> Entities \<Rightarrow> Entities" where
  "set_field c fname v s =
     (case c of Component t eid w \<Rightarrow> s\<lparr>storage := (storage s)((t, eid, fname) \<mapsto> v)\<rparr>)"

definition initComponent ::
  "ComponentType \<Rightarrow> EntityId option \<Rightarrow> (string \<times> jsval) list option \<Rightarrow> Entities \<Rightarrow> unit result" where
  "initComponent t eid vals s =
     (case map_of (controllers s) t of
        None \<Rightarrow> (Inl TypeError, s)
      | Some ctrl \<Rightarrow> (Inr (), s\<lparr>storage := Controller_init ctrl t eid vals (storage s)\<rparr>))"

definition bindComponent ::
  "Entities \<Rightarrow> ComponentType \<Rightarrow> EntityId option \<Rightarrow> bool \<Rightarrow> error + component" where
  "bindComponent s t eid allowWrite =
     (case map_of (controllers s) t of
        None \<Rightarrow> Inl TypeError
      | Some ctrl \<Rightarrow> Inr (Component t eid allowWrite))"

subsection \<open>Binding\<close>

definition Entity_reset :: "nat \<Rightarrow> EntityId option \<Rightarrow> Entity list \<Rightarrow> Entity list" where
  "Entity_reset e eid h = h[e := \<lparr>has_entities = True, ent_id = eid, joined = None\<rparr>]"

definition bind :: "EntityId option \<Rightarrow> Entities \<Rightarrow> nat result" where
  "bind eid s =
     (case borrow (pool s, heap s) of
        (None, p, h) \<Rightarrow> (Inl TypeError, s\<lparr>pool := p, heap := h\<rparr>)
      | (Some e, p, h) \<Rightarrow> (Inr e, s\<lparr>pool := p, heap := Entity_reset e eid h\<rparr>))"

section \<open>Entity handles\<close>

text \<open>
  A method of a handle takes the handle \<open>e\<close> (an object of the heap) as its receiver.  A
  handle that was never bound has no \<open>__entities\<close>, and every method fails on it with a
  TypeError.  A handle whose \<open>__id\<close> is \<open>undefined\<close> computes the index NaN: the read
  of the view gives \<open>undefined\<close> and the write is ignored.
\<close>

definition this_id :: "Entities \<Rightarrow> nat \<Rightarrow> EntityId option option" where
  "this_id s e =
     (if e < length (heap s) \<and> has_entities (heap s ! e) then Some (ent_id (heap s ! e)) else None)"

definition hasFlag_of :: "Entities \<Rightarrow> EntityId option \<Rightarrow> ComponentType \<Rightarrow> error + bool" where
  "hasFlag_of s eid t =
     (case eid of
        Some i \<Rightarrow> hasFlag s i t
      | None \<Rightarrow> (case map_of (controllers s) t of None \<Rightarrow> Inl TypeError | Some ctrl \<Rightarrow> Inr False))"

definition setFlag_of :: "EntityId option \<Rightarrow> ComponentType \<Rightarrow> Entities \<Rightarrow> unit result" where
  "setFlag_of eid t s =
     (case eid of
        Some i \<Rightarrow> setFlag i t s
      | None \<Rightarrow> (case map_of (controllers s) t of None \<Rightarrow> (Inl TypeError, s) | Some ctrl \<Rightarrow> (Inr (), s)))"

definition clearFlag_of :: "EntityId option \<Rightarrow> ComponentType \<Rightarrow> Entities \<Rightarrow> unit result" where
  "clearFlag_of eid t s =
     (case eid of
        Some i \<Rightarrow> clearFlag i t s
      | None \<Rightarrow> (case map_of (controllers s) t of None \<Rightarrow> (Inl TypeError, s) | Some ctrl \<Rightarrow> (Inr (), s)))"

definition markMutated_of :: "EntityId option \<Rightarrow> ComponentType \<Rightarrow> Entities \<Rightarrow> unit result" where
  "markMutated_of eid t s =
     (case eid of
        Some i \<Rightarrow> markMutated i t s
      | None \<Rightarrow> (case map_of (controllers s) t of None \<Rightarrow> (Inl TypeError, s) | Some ctrl \<Rightarrow> (Inr (), s)))"

definition isAllocated_of :: "Entities \<Rightarrow> EntityId option \<Rightarrow> bool" where
  "isAllocated_of s eid =
     (case eid of Some i \<Rightarrow> isAllocated s i (current s) | None \<Rightarrow> 0 < stride s)"

definition Entity_checkMask :: "Entities \<Rightarrow> nat \<Rightarrow> ComponentType \<Rightarrow> bool \<Rightarrow> error option" where
  "Entity_checkMask s e t wr =
     (case this_id s e of
        None \<Rightarrow> Some TypeError
      | Some eid \<Rightarrow>
          (case rwMasks (dispatcher s) of
             None \<Rightarrow> None
           | Some rw \<Rightarrow>
               (case maskHasFlag s (if wr then write rw else read rw) t of
                  Inl err \<Rightarrow> Some err
                | Inr True \<Rightarrow> None
                | Inr False \<Rightarrow> Some (NotMarked t wr))))"

definition Entity_has :: "Entities \<Rightarrow> nat \<Rightarrow> ComponentType \<Rightarrow> error + bool" where
  "Entity_has s e t =
     (case Entity_checkMask s e t False of
        Some err \<Rightarrow> Inl err
      | None \<Rightarrow> (case this_id s e of None \<Rightarrow> Inl TypeError | Some eid \<Rightarrow> hasFlag_of s eid t))"

definition Entity_get ::
  "Entities \<Rightarrow> nat \<Rightarrow> ComponentType \<Rightarrow> bool \<Rightarrow> error + component option" where
  "Entity_get s e t allowWrite =
     (case Entity_checkMask s e t allowWrite of
        Some err \<Rightarrow> Inl err
      | None \<Rightarrow>
          (case Entity_has s e t of
             Inl err \<Rightarrow> Inl err
           | Inr False \<Rightarrow> Inr None
           | Inr True \<Rightarrow>
               (case this_id s e of
                  None \<Rightarrow> Inl TypeError
                | Some eid \<Rightarrow> map_sum (\<lambda>x. x) Some (bindComponent s t eid allowWrite))))"

definition Entity_read :: "Entities \<Rightarrow> nat \<Rightarrow> ComponentType \<Rightarrow> error + component" where
  "Entity_read s e t =
     (case Entity_get s e t False of
        Inl err \<Rightarrow> Inl err
      | Inr None \<Rightarrow> Inl (DoesntHave t)
      | Inr (Some c) \<Rightarrow> Inr c)"

definition Entity_readIfPresent ::
  "Entities \<Rightarrow> nat \<Rightarrow> ComponentType \<Rightarrow> error + component option" where
  "Entity_readIfPresent s e t = Entity_get s e t False"

definition Entity_write :: "nat \<Rightarrow> ComponentType \<Rightarrow> Entities \<Rightarrow> component result" where
  "Entity_write e t s =
     (case Entity_get s e t True of
        Inl err \<Rightarrow> (Inl err, s)
      | Inr None \<Rightarrow> (Inl (DoesntHave t), s)
      | Inr (Some c) \<Rightarrow>
          (case this_id s e of
             None \<Rightarrow> (Inl TypeError, s)
           | Some eid \<Rightarrow>
               (case markMutated_of eid t s of
                  (Inl err, s') \<Rightarrow> (Inl err, s')
                | (Inr u, s') \<Rightarrow> (Inr c, s'))))"

definition Entity_add ::
  "nat \<Rightarrow> ComponentType \<Rightarrow> (string \<times> jsval) list option \<Rightarrow> Entities \<Rightarrow> unit result" where
  "Entity_add e t vals s =
     (case Entity_checkMask s e t True of
        Some err \<Rightarrow> (Inl err, s)
      | None \<Rightarrow>
          (case Entity_has s e t of
             Inl err \<Rightarrow> (Inl err, s)
           | Inr True \<Rightarrow> (Inl (AlreadyHas t), s)
           | Inr False \<Rightarrow>
               (case this_id s e of
                  None \<Rightarrow> (Inl TypeError, s)
                | Some eid \<Rightarrow>
                    (case setFlag_of eid t s of
                       (Inl err, s1) \<Rightarrow> (Inl err, s1)
                     | (Inr u, s1) \<Rightarrow> initComponent t eid vals s1))))"

fun null_refs :: "component \<Rightarrow> Field list \<Rightarrow> Entities \<Rightarrow> Entities" where
  "null_refs c [] s = s"
| "null_refs c (f # fs) s =
     null_refs c fs (if type f = T_ref then set_field c (name f) JNull s else s)"

definition Entity_deindexOutboundRefs :: "nat \<Rightarrow> ComponentType \<Rightarrow> Entities \<Rightarrow> unit result" where
  "Entity_deindexOutboundRefs e t s =
     (case getFields s t of
        Inl err \<Rightarrow> (Inl err, s)
      | Inr fs \<Rightarrow>
          (if list_ex (\<lambda>f. type f = T_ref) fs
           then (case Entity_write e t s of
                   (Inl err, s1) \<Rightarrow> (Inl err, s1)
                 | (Inr c, s1) \<Rightarrow> (Inr (), null_refs c fs s1))
           else (Inr (), s)))"

definition Entity_wipeInboundRefs :: "nat \<Rightarrow> Entities \<Rightarrow> Entities" where
  "Entity_wipeInboundRefs e s = s"

definition Entity_remove_flag :: "nat \<Rightarrow> ComponentType \<Rightarrow> Entities \<Rightarrow> bool result" where
  "Entity_remove_flag e t s =
     (case Entity_deindexOutboundRefs e t s of
        (Inl err, s1) \<Rightarrow> (Inl err, s1)
      | (Inr u, s1) \<Rightarrow>
          (case this_id s1 e of
             None \<Rightarrow> (Inl TypeError, s1)
           | Some eid \<Rightarrow>
               (case clearFlag_of eid t s1 of
                  (Inl err, s2) \<Rightarrow> (Inl err, s2)
                | (Inr u', s2) \<Rightarrow>
                    (Inr True,
                     if \<not> isAllocated_of s2 eid then Entity_wipeInboundRefs e s2 else s2))))"

definition Entity_remove :: "nat \<Rightarrow> ComponentType \<Rightarrow> Entities \<Rightarrow> bool result" where
  "Entity_remove e t s =
     (case Entity_checkMask s e t True of
        Some err \<Rightarrow> (Inl err, s)
      | None \<Rightarrow>
          (case this_id s e of
             None \<Rightarrow> (Inl TypeError, s)
           | Some eid \<Rightarrow>
               (case hasFlag_of s eid t of
                  Inl err \<Rightarrow> (Inl err, s)
                | Inr False \<Rightarrow> (Inr False, s)
                | Inr True \<Rightarrow> Entity_remove_flag e t s)))"

fun Entity_delete_from :: "nat \<Rightarrow> ComponentType list \<Rightarrow> Entities \<Rightarrow> unit result" where
  "Entity_delete_from e [] s = (Inr (), s)"
| "Entity_delete_from e (t # ts) s =
     (case this_id s e of
        None \<Rightarrow> (Inl TypeError, s)
      | Some eid \<Rightarrow>
          (case hasFlag_of s eid t of
             Inl err \<Rightarrow> (Inl err, s)
           | Inr False \<Rightarrow> Entity_delete_from e ts s
           | Inr True \<Rightarrow>
               (case Entity_checkMask s e t True of
                  Some err \<Rightarrow> (Inl err, s)
                | None \<Rightarrow>
                    (case Entity_remove_flag e t s of
                       (Inl err, s1) \<Rightarrow> (Inl err, s1)
                     | (Inr b, s1) \<Rightarrow> Entity_delete_from e ts s1))))"

definition Entity_delete :: "nat \<Rightarrow> Entities \<Rightarrow> unit result" where
  "Entity_delete e s =
     (case this_id s e of
        None \<Rightarrow> (Inl TypeError, s)
      | Some eid \<Rightarrow> Entity_delete_from e (types s) s)"

section \<open>Allocation of slots\<close>

text \<open>
  An element of \<open>initialComponents\<close> is a component type (a function) or the initial
  values of the component named before it (anything else).
\<close>

datatype arg = AType ComponentType | AValues "(string \<times> jsval) list"

fun add_initial :: "nat \<Rightarrow> arg list \<Rightarrow> Entities \<Rightarrow> unit result" where
  "add_initial e [] s = (Inr (), s)"
| "add_initial e (AValues v # rest) s = (Inl BadArguments, s)"
| "add_initial e [AType t] s = Entity_add e t None s"
| "add_initial e (AType t # AType t' # rest) s =
     (case Entity_add e t None s of
        (Inl err, s1) \<Rightarrow> (Inl err, s1)
      | (Inr u, s1) \<Rightarrow> add_initial e (AType t' # rest) s1)"
| "add_initial e (AType t # AValues v # rest) s =
     (case Entity_add e t (Some v) s of
        (Inl err, s1) \<Rightarrow> (Inl err, s1)
      | (Inr u, s1) \<Rightarrow> add_initial e rest s1)"

definition next_slot :: "Entities \<Rightarrow> nat \<Rightarrow> nat" where
  "next_slot s eid = (let id1 = eid + 1 in if id1 = maxNum s then 1 else id1)"

definition allocate :: "arg list \<Rightarrow> nat \<Rightarrow> Entities \<Rightarrow> nat result" where
  "allocate initialComponents eid s =
     (case bind (Some eid) s of
        (Inl err, s1) \<Rightarrow> (Inl err, s1)
      | (Inr e, s1) \<Rightarrow>
          (case add_initial e initialComponents s1 of
             (Inl err, s2) \<Rightarrow> (Inl err, s2)
           | (Inr u, s2) \<Rightarrow> (Inr e, s2\<lparr>nextId := next_slot s2 eid\<rparr>)))"

text \<open>
  The scan of \<open>createEntity\<close> ends when it finds a free slot or comes back to the slot it
  started from; where it does neither it runs forever, which is the value \<open>None\<close>.
\<close>

partial_function (option) createEntity_loop ::
  "arg list \<Rightarrow> nat \<Rightarrow> nat \<Rightarrow> Entities \<Rightarrow> nat result option" where
  "createEntity_loop initialComponents initial eid s =
     (if \<not> isAllocated s eid (current s) \<and> \<not> isAllocated s eid (previous s)
      then Some (allocate initialComponents eid s)
      else if next_slot s eid = initial
      then Some (Inl (MaxEntitiesReached (maxNum s - 1)), s)
      else createEntity_loop initialComponents initial (next_slot s eid) s)"

declare createEntity_loop.simps [code]

definition createEntity :: "arg list \<Rightarrow> Entities \<Rightarrow> nat result option" where
  "createEntity initialComponents s =
     createEntity_loop initialComponents (nextId s) (nextId s) s"

section \<open>Construction\<close>

fun Map_set :: "'k \<Rightarrow> 'v \<Rightarrow> ('k \<times> 'v) list \<Rightarrow> ('k \<times> 'v) list" where
  "Map_set k v [] = [(k, v)]"
| "Map_set k v ((k', v') # kvs) =
     (if k = k' then (k, v) # kvs else (k', v') # Map_set k v kvs)"

fun add_controllers ::
  "(ComponentType \<Rightarrow> Field list) \<Rightarrow> ComponentType list \<Rightarrow> nat
     \<Rightarrow> (ComponentType \<times> Controller) list \<Rightarrow> (ComponentType \<times> Controller) list" where
  "add_controllers schema [] componentId cs = cs"
| "add_controllers schema (t # ts) componentId cs =
     add_controllers schema ts (componentId + 1)
       (Map_set t (new_Controller componentId (schema t)) cs)"

definition ceil_div :: "nat \<Rightarrow> nat \<Rightarrow> nat" where
  "ceil_div a b = (a + b - 1) div b"

text \<open>
  \<open>schema\<close> gives the declared fields of a component type.  The memory cannot have more
  than 65536 pages, and the scanning module imports a memory of at least one page.
\<close>

definition new_Entities ::
  "nat \<Rightarrow> ComponentType list \<Rightarrow> (ComponentType \<Rightarrow> Field list) \<Rightarrow> Dispatcher \<Rightarrow> error + Entities" where
  "new_Entities maxEntities ts schema d =
     (let (p, h) = new_Pool 20 [];
          mx = maxEntities + 1;
          cs = add_controllers schema ts 0 [];
          st = ceil_div (length cs) 32;
          fss = mx * st * 4;
          fis = maxEntities * 4;
          bl = ceil_div (3 * fss + fis) (2 ^ 16)
      in if bl > 65536 then Inl RangeError
         else if bl < 1 then Inl LinkError
         else Inr \<lparr>maxNum = mx, stride = st, nextId = 1, flagSegmentSize = fss,
                   filterSegmentSize = fis, blocks = bl,
                   current = replicate (mx * st) 0, previous = replicate (mx * st) 0,
                   mutations = replicate (mx * st) 0, filtered = replicate maxEntities 0,
                   pool = p, heap = h, controllers = cs, types = ts, dispatcher = d,
                   storage = Map.empty\<rparr>)"

section \<open>Iteration\<close>

definition flush :: "Entities \<Rightarrow> Entities" where
  "flush s = s\<lparr>dispatcher := (dispatcher s)\<lparr>flushes := flushes (dispatcher s) + 1\<rparr>\<rparr>"

subsection \<open>The scanning kernel\<close>

text \<open>
  The memory is a list of 32-bit words and an address is a byte offset; an access of the
  four bytes at \<open>a\<close> traps unless \<open>a + 4\<close> is within the memory.  Every address that the
  kernel forms is a multiple of four, because \<open>segSize\<close> is.  The result is the memory
  and the returned \<open>numResults\<close>, or \<open>None\<close> in its place after a trap.
\<close>

definition mem_load :: "u32 list \<Rightarrow> u32 \<Rightarrow> u32 option" where
  "mem_load mem a = (if unat a + 4 \<le> 4 * length mem then Some (mem ! (unat a div 4)) else None)"

definition mem_store :: "u32 list \<Rightarrow> u32 \<Rightarrow> u32 \<Rightarrow> u32 list option" where
  "mem_store mem a v =
     (if unat a + 4 \<le> 4 * length mem then Some (mem[unat a div 4 := v]) else None)"

partial_function (option) wasm_loop ::
  "u32 \<Rightarrow> u32 \<Rightarrow> u32 \<Rightarrow> u32 list \<Rightarrow> u32 \<Rightarrow> u32 \<Rightarrow> u32 \<Rightarrow> u32 \<Rightarrow> u32
     \<Rightarrow> (u32 list \<times> u32 option) option" where
  "wasm_loop segSize posMask negMask mem eid numResults currOffset prevOffset filtOffset =
     (case mem_load mem currOffset of
        None \<Rightarrow> Some (mem, None)
      | Some w \<Rightarrow>
          (case (if (w AND posMask) = posMask \<and> (w AND negMask) = 0
                 then map_option (\<lambda>mem'. (mem', numResults + 1, filtOffset + 4))
                        (mem_store mem filtOffset eid)
                 else Some (mem, numResults, filtOffset)) of
             None \<Rightarrow> Some (mem, None)
           | Some (mem', numResults', filtOffset') \<Rightarrow>
               (if currOffset + 4 = segSize then Some (mem', Some numResults')
                else wasm_loop segSize posMask negMask mem' (eid + 1) numResults'
                       (currOffset + 4) (prevOffset + 4) filtOffset')))"

declare wasm_loop.simps [code]

definition wasm_iterateAll :: "u32 list \<Rightarrow> u32 \<Rightarrow> u32 \<Rightarrow> u32 \<Rightarrow> (u32 list \<times> u32 option) option" where
  "wasm_iterateAll mem segSize posMask negMask =
     wasm_loop segSize posMask negMask mem 1 0 4 (segSize + 4) (segSize * 3)"

subsection \<open>iterateAll\<close>

definition memory_of :: "Entities \<Rightarrow> u32 list" where
  "memory_of s =
     (let used = current s @ previous s @ mutations s @ filtered s
      in used @ replicate (blocks s * 16384 - length used) 0)"

definition first_word :: "mask option \<Rightarrow> int" where
  "first_word m =
     (case m of None \<Rightarrow> 0 | Some a \<Rightarrow> (case arr_get a 0 of None \<Rightarrow> 0 | Some v \<Rightarrow> v))"

record AllIterator =
  numResults :: int
  idx :: int

definition iterateAll :: "mask option \<Rightarrow> mask option \<Rightarrow> Entities \<Rightarrow> AllIterator result option" where
  "iterateAll withMask withoutMask s =
     (case wasm_iterateAll (memory_of s) (word_of_nat (flagSegmentSize s))
             (word_of_int (first_word withMask)) (word_of_int (first_word withoutMask)) of
        None \<Rightarrow> None
      | Some (mem', r) \<Rightarrow>
          (let s' = s\<lparr>filtered :=
                       take (length (filtered s)) (drop (3 * (flagSegmentSize s div 4)) mem')\<rparr>
           in case r of
                None \<Rightarrow> Some (Inl WasmTrap, s')
              | Some n \<Rightarrow> Some (Inr \<lparr>numResults = sint n, idx = - 1\<rparr>, s')))"

definition iterateAll_next :: "AllIterator \<Rightarrow> Entities \<Rightarrow> (nat option \<times> AllIterator) result" where
  "iterateAll_next it s =
     (let s1 = (if idx it \<ge> 0 then flush s else s);
          it' = it\<lparr>idx := idx it + 1\<rparr>
      in if idx it' \<ge> numResults it' then (Inr (None, it'), s1)
         else (case bind (map_option unat (ta_get (filtered s1) (nat (idx it')))) s1 of
                 (Inl err, s2) \<Rightarrow> (Inl err, s2)
               | (Inr e, s2) \<Rightarrow> (Inr (Some e, it'), s2)))"

subsection \<open>iterate\<close>

function iterate_skip :: "(EntityId \<Rightarrow> bool) \<Rightarrow> nat \<Rightarrow> nat \<Rightarrow> nat" where
  "iterate_skip predicate maxEntities eid =
     (if eid < maxEntities \<and> \<not> predicate eid
      then iterate_skip predicate maxEntities (eid + 1)
      else eid)"
  by pat_completeness auto
termination
  by (relation "measure (\<lambda>(predicate, maxEntities, eid). maxEntities - eid)") auto

declare iterate_skip.simps [simp del]

record PredIterator =
  iter_id :: EntityId
  entity :: "nat option"

definition iterate :: "Entities \<Rightarrow> PredIterator" where
  "iterate s = \<lparr>iter_id = 1, entity = None\<rparr>"

definition iterate_next ::
  "(Entities \<Rightarrow> EntityId \<Rightarrow> bool) \<Rightarrow> PredIterator \<Rightarrow> Entities
     \<Rightarrow> (nat option \<times> PredIterator) result" where
  "iterate_next predicate it s =
     (let s1 = flush s;
          maxEntities = maxNum s1;
          eid = iterate_skip (predicate s1) maxEntities (iter_id it)
      in if eid < maxEntities
         then (case bind (Some eid) s1 of
                 (Inl err, s2) \<Rightarrow> (Inl err, s2)
               | (Inr e, s2) \<Rightarrow> (Inr (Some e, \<lparr>iter_id = eid + 1, entity = Some e\<rparr>), s2))
         else (Inr (None, it\<lparr>iter_id := eid\<rparr>), s1))"

section \<open>Runs of the store\<close>

text \<open>
  A run applies a list of calls to the store, one after the other, and records what each
  call returned.  \<open>SetMasks\<close> is the dispatcher changing the masks of the executing
  system, \<open>Bind\<close> is the binding that the two iterators perform.  \<open>Created\<close> and
  \<open>Bound\<close> carry the handle and the slot it is bound to.  A call that fails
  leaves the store as the exception found it, and the run goes on.
\<close>

definition slot_of :: "Entities \<Rightarrow> nat \<Rightarrow> EntityId option" where
  "slot_of s e = (case this_id s e of None \<Rightarrow> None | Some i \<Rightarrow> i)"

datatype op =
    Create "arg list"
  | Add nat ComponentType "(string \<times> jsval) list option"
  | Remove nat ComponentType
  | Write nat ComponentType
  | Delete nat
  | Bind EntityId
  | Flush
  | SetMasks "ReadWriteMasks option"
  | Step

datatype outcome =
    Created nat "EntityId option"
  | Bound nat "EntityId option"
  | Removed bool
  | Done
  | Failed error

definition outcome_of :: "('a \<Rightarrow> Entities \<Rightarrow> outcome) \<Rightarrow> 'a result \<Rightarrow> outcome \<times> Entities" where
  "outcome_of f r = (case r of (Inl err, s) \<Rightarrow> (Failed err, s) | (Inr x, s) \<Rightarrow> (f x s, s))"

fun exec :: "op \<Rightarrow> Entities \<Rightarrow> (outcome \<times> Entities) option" where
  "exec (Create ic) s =
     map_option (outcome_of (\<lambda>e s'. Created e (slot_of s' e))) (createEntity ic s)"
| "exec (Add e t vals) s = Some (outcome_of (\<lambda>u s'. Done) (Entity_add e t vals s))"
| "exec (Remove e t) s = Some (outcome_of (\<lambda>b s'. Removed b) (Entity_remove e t s))"
| "exec (Write e t) s = Some (outcome_of (\<lambda>c s'. Done) (Entity_write e t s))"
| "exec (Delete e) s = Some (outcome_of (\<lambda>u s'. Done) (Entity_delete e s))"
| "exec (Bind eid) s =
     Some (outcome_of (\<lambda>e s'. Bound e (slot_of s' e)) (bind (Some eid) s))"
| "exec Flush s = Some (Done, flush s)"
| "exec (SetMasks rw) s = Some (Done, s\<lparr>dispatcher := (dispatcher s)\<lparr>rwMasks := rw\<rparr>\<rparr>)"
| "exec Step s = Some (outcome_of (\<lambda>u s'. Done) (step s))"

fun run :: "op list \<Rightarrow> Entities \<Rightarrow> (outcome list \<times> Entities) option" where
  "run [] s = Some ([], s)"
| "run (x # xs) s =
     (case exec x s of
        None \<Rightarrow> None
      | Some (out, s1) \<Rightarrow>
          (case run xs s1 of None \<Rightarrow> None | Some (outs, s2) \<Rightarrow> Some (out # outs, s2)))"

definition run_new ::
  "nat \<Rightarrow> ComponentType list \<Rightarrow> (ComponentType \<Rightarrow> Field list) \<Rightarrow> op list
     \<Rightarrow> (outcome list \<times> Entities) option" where
  "run_new maxEntities ts schema ops =
     (case new_Entities maxEntities ts schema \<lparr>rwMasks = None, flushes = 0\<rparr> of
        Inl err \<Rightarrow> None
      | Inr s \<Rightarrow> run ops s)"

definition outcomes :: "(outcome list \<times> Entities) option \<Rightarrow> outcome list option" where
  "outcomes r = map_option fst r"

definition final :: "(outcome list \<times> Entities) option \<Rightarrow> Entities" where
  "final r = snd (the r)"

section \<open>Invariants of the store\<close>

text \<open>
  The constructor sizes the three flag views to \<open>maxNum * stride\<close> words and the scratch
  view to \<open>maxEntities\<close> words; no operation changes a size.  The cursor stays within
  the slots.  With distinct component types every presence bit lies within the stride.
  The pool's cursor stays within its list, whose items are objects of the heap.
\<close>

definition views_ok :: "Entities \<Rightarrow> bool" where
  "views_ok s \<longleftrightarrow>
     length (current s) = maxNum s * stride s \<and>
     length (previous s) = maxNum s * stride s \<and>
     length (mutations s) = maxNum s * stride s \<and>
     length (filtered s) = maxNum s - 1 \<and>
     flagSegmentSize s = maxNum s * stride s * 4"

definition cursor_ok :: "Entities \<Rightarrow> bool" where
  "cursor_ok s \<longleftrightarrow> 1 \<le> nextId s \<and> nextId s < maxNum s"

definition ctrls_ok :: "Entities \<Rightarrow> bool" where
  "ctrls_ok s \<longleftrightarrow>
     (\<forall>t ctrl. map_of (controllers s) t = Some ctrl \<longrightarrow>
        flagOffset ctrl < stride s \<and> flagMask ctrl \<noteq> 0)"

definition pool_ok :: "Entities \<Rightarrow> bool" where
  "pool_ok s \<longleftrightarrow>
     next (pool s) \<le> length (list (pool s)) \<and>
     (\<forall>r \<in> set (list (pool s)). r < length (heap s))"

definition blank :: Entity where
  "blank = \<lparr>has_entities = False, ent_id = None, joined = None\<rparr>"

section \<open>The word-by-word test\<close>

text \<open>
  The test as the specification words it, on the 32 bits of the words.  A flag word
  covers a mask word when the two and-ed give the mask word, that is, when every bit of
  the mask word is set in the flag word; it avoids a mask word when the two and-ed give
  zero.  The bits of a mask word, which is a Number, are those of its 32-bit integer.
\<close>

definition covers :: "u32 \<Rightarrow> int option \<Rightarrow> bool" where
  "covers w m \<longleftrightarrow> w AND ToInt32 m = ToInt32 m"

definition avoids :: "u32 \<Rightarrow> int option \<Rightarrow> bool" where
  "avoids w m \<longleftrightarrow> w AND ToInt32 m = 0"

text \<open>
  Every word of the positive mask is covered by the word of the slot at the same index,
  every word of the negative mask is avoided by it, and a word index beyond a mask, or
  an omitted mask, constrains nothing.
\<close>

definition word_by_word :: "u32 list \<Rightarrow> nat \<Rightarrow> mask option \<Rightarrow> mask option \<Rightarrow> bool" where
  "word_by_word entities offset positiveMask negativeMask \<longleftrightarrow>
     (case positiveMask of
        None \<Rightarrow> True
      | Some pm \<Rightarrow>
          list_all (\<lambda>i. covers (elem_bits (ta_get entities (offset + i))) (pm ! i))
            [0..<length pm]) \<and>
     (case negativeMask of
        None \<Rightarrow> True
      | Some nm \<Rightarrow>
          list_all (\<lambda>i. avoids (elem_bits (ta_get entities (offset + i))) (nm ! i))
            [0..<length nm])"

text \<open>
  A mask all of whose words are signed 32-bit Numbers, as \<open>|=\<close> leaves them in the
  masks that \<open>extendMaskAndSetFlag\<close> builds.
\<close>

definition int32_words :: "mask option \<Rightarrow> bool" where
  "int32_words m \<longleftrightarrow>
     (case m of
        None \<Rightarrow> True
      | Some pm \<Rightarrow>
          list_all (\<lambda>x. case x of None \<Rightarrow> False | Some v \<Rightarrow> - (2 ^ 31) \<le> v \<and> v < 2 ^ 31) pm)"

section \<open>Notions used in the properties\<close>

text \<open>A slot that \<open>createEntity\<close> may take: unallocated in both buffers.\<close>

definition free_slot :: "Entities \<Rightarrow> nat \<Rightarrow> bool" where
  "free_slot s i \<longleftrightarrow> \<not> isAllocated s i (current s) \<and> \<not> isAllocated s i (previous s)"

text \<open>
  What the scan of \<open>createEntity\<close> delivers: the allocation of a free slot, or the capacity
  error when no slot is free.
\<close>

definition scan_result :: "arg list \<Rightarrow> Entities \<Rightarrow> nat result \<Rightarrow> bool" where
  "scan_result ic s r \<longleftrightarrow>
     (\<exists>j. 1 \<le> j \<and> j < maxNum s \<and> free_slot s j \<and> r = allocate ic j s) \<or>
     ((\<forall>j. 1 \<le> j \<and> j < maxNum s \<longrightarrow> \<not> free_slot s j) \<and>
      r = (Inl (MaxEntitiesReached (maxNum s - 1)), s))"

text \<open>The object that the pool lends at the moment.\<close>

definition borrowed :: "Entities \<Rightarrow> nat option" where
  "borrowed s = fst (borrow (pool s, heap s))"

text \<open>
  Two frames: a method of a handle changes only the current and mutation views and the
  field storage, and keeps the sizes of the views; binding changes only the pool and the
  heap of handles.
\<close>

definition flags_only :: "Entities \<Rightarrow> Entities \<Rightarrow> bool" where
  "flags_only s s' \<longleftrightarrow>
     maxNum s' = maxNum s \<and> stride s' = stride s \<and> nextId s' = nextId s \<and>
     flagSegmentSize s' = flagSegmentSize s \<and> filterSegmentSize s' = filterSegmentSize s \<and>
     blocks s' = blocks s \<and> previous s' = previous s \<and> filtered s' = filtered s \<and>
     pool s' = pool s \<and> heap s' = heap s \<and> controllers s' = controllers s \<and>
     types s' = types s \<and> dispatcher s' = dispatcher s \<and>
     length (current s') = length (current s) \<and> length (mutations s') = length (mutations s)"

definition handles_only :: "Entities \<Rightarrow> Entities \<Rightarrow> bool" where
  "handles_only s s' \<longleftrightarrow>
     maxNum s' = maxNum s \<and> stride s' = stride s \<and> nextId s' = nextId s \<and>
     flagSegmentSize s' = flagSegmentSize s \<and> filterSegmentSize s' = filterSegmentSize s \<and>
     blocks s' = blocks s \<and> current s' = current s \<and> previous s' = previous s \<and>
     mutations s' = mutations s \<and> filtered s' = filtered s \<and>
     controllers s' = controllers s \<and> types s' = types s \<and> dispatcher s' = dispatcher s \<and>
     storage s' = storage s"

text \<open>The invariants together.\<close>

definition store_ok :: "Entities \<Rightarrow> bool" where
  "store_ok s \<longleftrightarrow> views_ok s \<and> cursor_ok s \<and> ctrls_ok s \<and> pool_ok s"

text \<open>No flag word of the current buffer that is not zero becomes zero.\<close>

definition grows :: "Entities \<Rightarrow> Entities \<Rightarrow> bool" where
  "grows s s' \<longleftrightarrow>
     stride s' = stride s \<and> length (current s') = length (current s) \<and>
     (\<forall>k < length (current s). current s ! k \<noteq> 0 \<longrightarrow> current s' ! k \<noteq> 0)"

text \<open>A result other than the capacity error.\<close>

definition not_capacity :: "error + 'a \<Rightarrow> bool" where
  "not_capacity r \<longleftrightarrow> (\<forall>n. r \<noteq> Inl (MaxEntitiesReached n))"

text \<open>The slots that hold a component.\<close>

definition allocated_slots :: "Entities \<Rightarrow> nat set" where
  "allocated_slots s = {i. 1 \<le> i \<and> i < maxNum s \<and> isAllocated s i (current s)}"

section \<open>Example stores\<close>

text \<open>Two schemas: no fields at all, and a reference field and a number field.\<close>

definition no_fields :: "ComponentType \<Rightarrow> Field list" where
  "no_fields t = []"

definition ref_schema :: "ComponentType \<Rightarrow> Field list" where
  "ref_schema t = [\<lparr>name = ''target'', type = T_ref\<rparr>, \<lparr>name = ''weight'', type = T_uint32\<rparr>]"

text \<open>
  \<open>store_A\<close>: one slot and one component type; slot 1 holds the component, written
  once in the current frame.
\<close>

definition store_A :: Entities where
  "store_A = final (run_new 1 [0] no_fields [Create [AType 0], Write 0 0])"

text \<open>
  \<open>store_B\<close>: two slots and 33 component types, so that a slot has two flag words;
  slot 1 holds the component of type 0.
\<close>

definition types33 :: "ComponentType list" where
  "types33 =
     [0, 1, 2, 3, 4, 5, 6, 7, 8, 9, 10, 11, 12, 13, 14, 15, 16, 17, 18, 19, 20, 21, 22, 23,
      24, 25, 26, 27, 28, 29, 30, 31, 32]"

definition store_B :: Entities where
  "store_B = final (run_new 2 types33 no_fields [Create [AType 0]])"

text \<open>
  \<open>store_C\<close>: one slot and 33 component types; slot 1 holds the component of type 32,
  whose bit is the lowest bit of the second flag word.
\<close>

definition store_C :: Entities where
  "store_C = final (run_new 1 types33 no_fields [Create [AType 32]])"

text \<open>The slots that a call of \<open>iterateAll\<close> left in the scratch view, in order.\<close>

definition written_ids :: "AllIterator result option \<Rightarrow> nat list option" where
  "written_ids r =
     (case r of
        Some (Inr it, s') \<Rightarrow> Some (map unat (take (nat (numResults it)) (filtered s')))
      | _ \<Rightarrow> None)"

text \<open>A predicate for \<open>iterate\<close>: the slot holds the component of type 0.\<close>

definition has_type0 :: "Entities \<Rightarrow> EntityId \<Rightarrow> bool" where
  "has_type0 s eid = matchCurrent s eid (Some [Some 1]) None"

text \<open>
  \<open>store_M\<close>: one slot holding the component of type 0, while a system that declared
  no component type is executing.
\<close>

definition store_M :: Entities where
  "store_M = final (run_new 1 [0] no_fields
     [Create [AType 0], SetMasks (Some \<lparr>read = [], write = []\<rparr>)])"


text \<open>
  \<open>store_R\<close>: one slot holding the component of type 0, whose field \<open>target\<close> refers to
  slot 1, while a system that declared type 0 readable and writable is executing.
\<close>

definition store_R :: Entities where
  "store_R = final (run_new 1 [0] ref_schema
     [Create [AType 0, AValues [(''target'', JRef 1), (''weight'', JNum 5)]],
      SetMasks (Some \<lparr>read = [Some 1], write = [Some 1]\<rparr>)])"

text \<open>
  \<open>store_P\<close>: two slots; slot 1 holds the component of type 0 and \<open>step()\<close> has run since,
  so the slot is in the previous buffer too.
\<close>

definition store_P :: Entities where
  "store_P = final (run_new 2 [0] no_fields [Create [AType 0], Step])"

text \<open>
  \<open>store_4\<close>: a new store of four slots and one component type; \<open>store_4a\<close> to
  \<open>store_4d\<close> are the store after one to four entities were created with the component.
\<close>

definition store_4 :: Entities where
  "store_4 = final (run_new 4 [0] no_fields [])"

definition store_4a :: Entities where
  "store_4a = final (run_new 4 [0] no_fields [Create [AType 0]])"

definition store_4b :: Entities where
  "store_4b = final (run_new 4 [0] no_fields [Create [AType 0], Create [AType 0]])"

definition store_4c :: Entities where
  "store_4c = final (run_new 4 [0] no_fields
     [Create [AType 0], Create [AType 0], Create [AType 0]])"

definition store_4d :: Entities where
  "store_4d = final (run_new 4 [0] no_fields
     [Create [AType 0], Create [AType 0], Create [AType 0], Create [AType 0]])"

text \<open>
  \<open>store_F\<close>: one slot and 32 component types, so that a slot has one flag word; slot 1
  holds the components of all 32 types.
\<close>

definition types32 :: "ComponentType list" where
  "types32 =
     [0, 1, 2, 3, 4, 5, 6, 7, 8, 9, 10, 11, 12, 13, 14, 15, 16, 17, 18, 19, 20, 21, 22, 23,
      24, 25, 26, 27, 28, 29, 30, 31]"

definition store_F :: Entities where
  "store_F = final (run_new 1 types32 no_fields [Create (map AType types32)])"

text \<open>
  \<open>store_W\<close> and \<open>store_X\<close>: one slot and one component type with a reference field,
  while a system that declared the type writable but not readable is executing.  In
  \<open>store_W\<close> slot 1 does not hold the component; in \<open>store_X\<close> it does.
\<close>

definition store_W :: Entities where
  "store_W = final (run_new 1 [0] ref_schema
     [Create [], SetMasks (Some \<lparr>read = [], write = [Some 1]\<rparr>)])"

definition store_X :: Entities where
  "store_X = final (run_new 1 [0] ref_schema
     [Create [AType 0, AValues [(''target'', JRef 1), (''weight'', JNum 5)]],
      SetMasks (Some \<lparr>read = [], write = [Some 1]\<rparr>)])"

text \<open>
  The memory has room for the four views and stays within the 65536 pages that
  WebAssembly allows.
\<close>

definition mem_ok :: "Entities \<Rightarrow> bool" where
  "mem_ok s \<longleftrightarrow> length (memory_of s) = blocks s * 16384 \<and> blocks s \<le> 65536"

text \<open>The test that the kernel makes on one flag word.\<close>

definition kernel_test :: "u32 \<Rightarrow> u32 \<Rightarrow> u32 \<Rightarrow> bool" where
  "kernel_test posMask negMask w \<longleftrightarrow> (w AND posMask) = posMask \<and> (w AND negMask) = 0"

text \<open>Writing slot ids into consecutive words of the memory.\<close>

fun put_ids :: "u32 list \<Rightarrow> nat \<Rightarrow> nat list \<Rightarrow> u32 list" where
  "put_ids mem a [] = mem"
| "put_ids mem a (x # xs) = put_ids (mem[a := of_nat x]) (a + 1) xs"

text \<open>
  Masks that the kernel can represent: at most one word; a positive mask word is a
  signed 32-bit Number.
\<close>

definition one_word_pos :: "mask option \<Rightarrow> bool" where
  "one_word_pos pm \<longleftrightarrow>
     pm = None \<or> pm = Some [] \<or> (\<exists>v. pm = Some [Some v] \<and> - (2 ^ 31) \<le> v \<and> v < 2 ^ 31)"

definition one_word_neg :: "mask option \<Rightarrow> bool" where
  "one_word_neg nm \<longleftrightarrow> nm = None \<or> nm = Some [] \<or> (\<exists>x. nm = Some [x])"

section \<open>Properties\<close>

subsection \<open>Evaluation of the example stores\<close>

lemma Pool_fill_eq: "Pool_fill n h = (map (\<lambda>i. length h + i) [0..<n], h @ replicate n blank)"
proof (induction n arbitrary: h)
  case 0
  show ?case by simp
next
  case (Suc n)
  have "map (\<lambda>i. length h + i) [0..<Suc n] = length h # map (\<lambda>i. Suc (length h + i)) [0..<n]"
    by (simp add: upt_conv_Cons map_Suc_upt[symmetric] del: upt_Suc)
  then show ?case
    by (simp add: Suc.IH new_Class_def blank_def replicate_app_Cons_same del: upt_Suc)
qed

lemmas model_defs =
  run_new_def final_def outcomes_def new_Entities_def new_Pool_def Pool_fill_eq ceil_div_def
  no_fields_def
  new_Controller_def new_Class_def createEntity_def createEntity_loop.simps allocate_def
  bind_def borrow_def Pool_grow_def list_at_def Entity_reset_def next_slot_def
  isAllocated_def ta_get_def ta_put_def outcome_of_def slot_of_def this_id_def
  Entity_add_def Entity_checkMask_def Entity_has_def hasFlag_of_def hasFlag_def
  setFlag_of_def setFlag_def initComponent_def Controller_init_def elem_bits_def
  Entity_remove_def Entity_remove_flag_def Entity_deindexOutboundRefs_def getFields_def
  clearFlag_of_def clearFlag_def isAllocated_of_def Entity_wipeInboundRefs_def
  Entity_write_def Entity_get_def bindComponent_def markMutated_of_def markMutated_def
  Let_def

lemma store_A_views:
  "maxNum store_A = 2" "stride store_A = 1" "current store_A = [0, 1]"
  "previous store_A = [0, 0]" "mutations store_A = [0, 1]" "filtered store_A = [0]"
  "flagSegmentSize store_A = 8"
  by (simp_all add: store_A_def model_defs)

lemma isAllocated_from_numeral:
  "isAllocated_from entities base off (numeral n) =
     (if ta_get entities (base + off) \<noteq> Some 0 then True
      else isAllocated_from entities base (off + 1) (pred_numeral n))"
  by (simp add: numeral_eq_Suc)

lemma replicate_numeral_unfold: "replicate (numeral n) x = x # replicate (pred_numeral n) x"
  by (simp add: numeral_eq_Suc)

lemma store_B_fields:
  "maxNum store_B = 3" "stride store_B = 2" "current store_B = [0, 0, 1, 0, 0, 0]"
  "previous store_B = [0, 0, 0, 0, 0, 0]" "mutations store_B = [0, 0, 0, 0, 0, 0]"
  "filtered store_B = [0, 0]" "flagSegmentSize store_B = 24" "blocks store_B = 1"
  "map_of (controllers store_B) 32 = Some \<lparr>flagOffset = 1, flagMask = 1, ctrl_fields = []\<rparr>"
  by (simp_all add: store_B_def types33_def model_defs isAllocated_from_numeral
      replicate_numeral_unfold)

lemma store_C_fields:
  "maxNum store_C = 2" "stride store_C = 2" "current store_C = [0, 0, 0, 1]"
  "map_of (controllers store_C) 32 = Some \<lparr>flagOffset = 1, flagMask = 1, ctrl_fields = []\<rparr>"
  by (simp_all add: store_C_def types33_def model_defs isAllocated_from_numeral
      replicate_numeral_unfold)

subsection \<open>Matching\<close>

lemma match_pos_iff:
  "match_pos entities offset pm k \<longleftrightarrow>
     (\<forall>i < length pm.
        Some (sint (elem_bits (ta_get entities (offset + (k + i))) AND ToInt32 (pm ! i))) = pm ! i)"
proof (induction pm arbitrary: k)
  case Nil
  then show ?case by simp
next
  case (Cons m pm)
  show ?case
    by (simp add: Cons.IH All_less_Suc2)
qed

lemma match_neg_iff:
  "match_neg entities offset nm k \<longleftrightarrow>
     (\<forall>i < length nm.
        sint (elem_bits (ta_get entities (offset + (k + i))) AND ToInt32 (nm ! i)) = 0)"
proof (induction nm arbitrary: k)
  case Nil
  then show ?case by simp
next
  case (Cons m nm)
  show ?case
    by (simp add: Cons.IH All_less_Suc2)
qed

text \<open>The two tests of the specification, bit by bit.\<close>

lemma covers_bits: "covers w m \<longleftrightarrow> (\<forall>n. bit (ToInt32 m) n \<longrightarrow> bit w n)"
proof
  assume "covers w m"
  then have "bit (w AND ToInt32 m) n = bit (ToInt32 m) n" for n
    by (simp add: covers_def)
  then show "\<forall>n. bit (ToInt32 m) n \<longrightarrow> bit w n"
    by (auto simp add: bit_and_iff)
next
  assume "\<forall>n. bit (ToInt32 m) n \<longrightarrow> bit w n"
  then show "covers w m"
    unfolding covers_def by (intro bit_eqI) (auto simp add: bit_and_iff)
qed

lemma avoids_bits: "avoids w m \<longleftrightarrow> (\<forall>n. bit (ToInt32 m) n \<longrightarrow> \<not> bit w n)"
proof
  assume "avoids w m"
  then have "\<not> bit (w AND ToInt32 m) n" for n
    by (simp add: avoids_def)
  then show "\<forall>n. bit (ToInt32 m) n \<longrightarrow> \<not> bit w n"
    by (auto simp add: bit_and_iff)
next
  assume "\<forall>n. bit (ToInt32 m) n \<longrightarrow> \<not> bit w n"
  then show "avoids w m"
    unfolding avoids_def by (intro bit_eqI) (auto simp add: bit_and_iff)
qed

lemma word_by_word_iff:
  "word_by_word entities offset positiveMask negativeMask \<longleftrightarrow>
     (\<forall>pm. positiveMask = Some pm \<longrightarrow>
        (\<forall>i < length pm. covers (elem_bits (ta_get entities (offset + i))) (pm ! i))) \<and>
     (\<forall>nm. negativeMask = Some nm \<longrightarrow>
        (\<forall>i < length nm. avoids (elem_bits (ta_get entities (offset + i))) (nm ! i)))"
  by (cases positiveMask; cases negativeMask) (auto simp add: word_by_word_def list_all_iff)

lemma covered_int32:
  assumes "- (2 ^ 31) \<le> v" and "v < 2 ^ 31"
  shows "Some (sint (w AND ToInt32 (Some v))) = Some v \<longleftrightarrow> w AND word_of_int v = (word_of_int v :: u32)"
proof -
  have sv: "sint (word_of_int v :: u32) = v"
    using assms by (simp add: sint_sbintrunc' signed_take_bit_int_eq_self)
  show ?thesis
  proof
    assume "Some (sint (w AND ToInt32 (Some v))) = Some v"
    then have "sint (w AND word_of_int v) = v" by (simp add: ToInt32_def)
    then have "word_of_int (sint (w AND word_of_int v)) = (word_of_int v :: u32)" by simp
    then show "w AND word_of_int v = (word_of_int v :: u32)" by simp
  next
    assume "w AND word_of_int v = (word_of_int v :: u32)"
    then show "Some (sint (w AND ToInt32 (Some v))) = Some v"
      by (simp add: ToInt32_def sv)
  qed
qed

lemma neg_test_avoids: "sint ((w :: u32) AND ToInt32 m) = 0 \<longleftrightarrow> avoids w m"
  by (simp add: avoids_def signed_eq_0_iff)

lemma pos_test_covers:
  assumes "- (2 ^ 31) \<le> v" and "v < 2 ^ 31"
  shows "Some (sint (w AND ToInt32 (Some v))) = Some v \<longleftrightarrow> covers w (Some v)"
  using covered_int32 [OF assms, of w] by (simp add: covers_def ToInt32_def)

lemma pos_test_out_of_range:
  assumes "m = None \<or> (\<exists>v. m = Some v \<and> (v < - (2 ^ 31) \<or> 2 ^ 31 \<le> v))"
  shows "Some (sint ((w :: u32) AND ToInt32 m)) \<noteq> m"
proof (cases m)
  case None
  then show ?thesis by simp
next
  case (Some v)
  with assms have out: "v < - (2 ^ 31) \<or> 2 ^ 31 \<le> v" by simp
  have "sint (w AND ToInt32 (Some v)) < 2 ^ 31" "- (2 ^ 31) \<le> sint (w AND ToInt32 (Some v))"
    using sint_lt [of "w AND ToInt32 (Some v)"] sint_ge [of "w AND ToInt32 (Some v)"] by simp_all
  with out Some show ?thesis by auto
qed

text \<open>
  Where every word of the positive mask is a signed 32-bit Number, \<open>match\<close> is the
  word-by-word test, for every slot, every buffer and every negative mask, each mask
  omitted, shorter than the stride or longer.
\<close>

lemma match_word_by_word_int32:
  assumes "int32_words positiveMask"
  shows "match s eid entities positiveMask negativeMask
           = word_by_word entities (eid * stride s) positiveMask negativeMask"
proof -
  have pos: "match_pos entities (eid * stride s) pm 0
         \<longleftrightarrow> (\<forall>i < length pm. covers (elem_bits (ta_get entities (eid * stride s + i))) (pm ! i))"
    if "positiveMask = Some pm" for pm
  proof -
    have "\<exists>v. pm ! i = Some v \<and> - (2 ^ 31) \<le> v \<and> v < 2 ^ 31" if "i < length pm" for i
      using assms \<open>positiveMask = Some pm\<close> that
      by (auto simp add: int32_words_def list_all_length split: option.splits)
    then show ?thesis
      unfolding match_pos_iff using pos_test_covers by fastforce
  qed
  show ?thesis
    by (cases positiveMask; cases negativeMask)
       (auto simp add: match_def Let_def word_by_word_iff pos match_neg_iff neg_test_avoids)
qed

text \<open>
  A positive mask with a hole, or with a word that is not a signed 32-bit Number,
  matches no slot, whatever the buffer holds: \<open>&\<close> gives a signed 32-bit Number, and
  \<open>!==\<close> compares it with the mask word as it is.
\<close>

lemma match_rejects_other_words:
  assumes "positiveMask = Some pm" and "i < length pm"
    and "pm ! i = None \<or> (\<exists>v. pm ! i = Some v \<and> (v < - (2 ^ 31) \<or> 2 ^ 31 \<le> v))"
  shows "\<not> match s eid entities positiveMask negativeMask"
proof -
  have "Some (sint (elem_bits (ta_get entities (eid * stride s + i)) AND ToInt32 (pm ! i)))
          \<noteq> pm ! i"
    using assms(3) by (rule pos_test_out_of_range)
  then have "\<not> match_pos entities (eid * stride s) pm 0"
    unfolding match_pos_iff using assms(2) by auto
  then show ?thesis
    using assms(1) by (simp add: match_def Let_def)
qed

lemma store_F_eval:
  "\<exists>n p h c t d st.
     store_F = \<lparr>maxNum = 2, stride = 1, nextId = n, flagSegmentSize = 8, filterSegmentSize = 4,
       blocks = 1, current = [0, 4294967295], previous = [0, 0], mutations = [0, 0],
       filtered = [0], pool = p, heap = h, controllers = c, types = t, dispatcher = d,
       storage = st\<rparr> \<and> length c = 32"
  by (simp add: store_F_def types32_def model_defs isAllocated_from_numeral
      replicate_numeral_unfold)

lemma store_F_fields:
  "maxNum store_F = 2" "stride store_F = 1" "current store_F = [0, 4294967295]"
  "flagSegmentSize store_F = 8" "blocks store_F = 1"
  "previous store_F = [0, 0]" "mutations store_F = [0, 0]" "filtered store_F = [0]"
  "createFilledMask store_F = [Some 4294967295]"
proof -
  from store_F_eval obtain n p h c t d st where
    eq: "store_F = \<lparr>maxNum = 2, stride = 1, nextId = n, flagSegmentSize = 8,
       filterSegmentSize = 4, blocks = 1, current = [0, 4294967295], previous = [0, 0],
       mutations = [0, 0], filtered = [0], pool = p, heap = h, controllers = c, types = t,
       dispatcher = d, storage = st\<rparr>"
    and len: "length c = 32"
    by blast
  show "maxNum store_F = 2" "stride store_F = 1" "current store_F = [0, 4294967295]"
    "flagSegmentSize store_F = 8" "blocks store_F = 1"
    "previous store_F = [0, 0]" "mutations store_F = [0, 0]" "filtered store_F = [0]"
    "createFilledMask store_F = [Some 4294967295]"
    by (simp_all add: eq createFilledMask_def len)
qed

text \<open>
  C3.  \<open>store_F\<close> has 32 component types and slot 1 holds all of them: its flag word
  has every bit set.  For the positive mask that \<open>createFilledMask\<close> returns, whose
  word is 4294967295, the flag word and-ed with the mask word is the mask word, so the
  word-by-word test holds, and the kernel run by \<open>iterateAll\<close> reports slot 1; but
  \<open>matchCurrent\<close> returns false, because \<open>&\<close> gives the signed Number \<open>-1\<close> and \<open>!==\<close>
  finds it different from 4294967295.
\<close>

theorem match_rejects_filled_mask:
  "current store_F = [0, 4294967295] \<and>
   createFilledMask store_F = [Some 4294967295] \<and>
   word_by_word (current store_F) (1 * stride store_F) (Some (createFilledMask store_F)) None \<and>
   \<not> matchCurrent store_F 1 (Some (createFilledMask store_F)) None \<and>
   written_ids (iterateAll (Some (createFilledMask store_F)) None store_F) = Some [1]"
  by (simp add: store_F_fields word_by_word_def covers_def avoids_def matchCurrent_def match_def
      ta_get_def elem_bits_def ToInt32_def written_ids_def iterateAll_def wasm_iterateAll_def
      wasm_loop.simps mem_load_def mem_store_def memory_of_def first_word_def arr_get_def
      nth_append)

subsection \<open>step\<close>

text \<open>
  C4.  After \<open>step()\<close> the previous buffer is the current buffer as it was at the call,
  every word of the mutation buffer is zero, whatever the buffers held, and the current
  buffer is unchanged.
\<close>

theorem step_copies_current_and_clears_mutations:
  assumes "views_ok s"
  shows "\<exists>s'. step s = (Inr (), s') \<and> previous s' = current s \<and> current s' = current s
           \<and> mutations s' = replicate (maxNum s * stride s) 0 \<and> views_ok s'"
  using assms
  by (simp add: step_def ta_set_def views_ok_def ta_fill_def map_replicate_const)

theorem step_copies_current_and_clears_mutations_witness:
  "views_ok store_A \<and> mutations store_A = [0, 1] \<and>
   (\<exists>s'. step store_A = (Inr (), s') \<and> previous s' = [0, 1] \<and> current s' = [0, 1]
      \<and> mutations s' = [0, 0])"
proof -
  have ok: "views_ok store_A" by (simp add: views_ok_def store_A_views)
  show ?thesis
    using ok step_copies_current_and_clears_mutations [OF ok]
    by (auto simp add: store_A_views numeral_2_eq_2)
qed

subsection \<open>Frames of the operations\<close>

lemma flags_only_refl: "flags_only s s"
  by (simp add: flags_only_def)

lemma flags_only_trans: "flags_only s s1 \<Longrightarrow> flags_only s1 s2 \<Longrightarrow> flags_only s s2"
  by (simp add: flags_only_def)

lemma setFlag_frame: "setFlag i t s = (r, s') \<Longrightarrow> flags_only s s'"
  by (auto simp add: setFlag_def flags_only_def ta_put_def Let_def split: option.splits)

lemma clearFlag_frame: "clearFlag i t s = (r, s') \<Longrightarrow> flags_only s s'"
  by (auto simp add: clearFlag_def flags_only_def ta_put_def Let_def split: option.splits)

lemma markMutated_frame: "markMutated i t s = (r, s') \<Longrightarrow> flags_only s s'"
  by (auto simp add: markMutated_def flags_only_def ta_put_def Let_def split: option.splits)

lemma setFlag_of_frame: "setFlag_of i t s = (r, s') \<Longrightarrow> flags_only s s'"
  by (auto simp add: setFlag_of_def flags_only_refl split: option.splits dest: setFlag_frame)

lemma clearFlag_of_frame: "clearFlag_of i t s = (r, s') \<Longrightarrow> flags_only s s'"
  by (auto simp add: clearFlag_of_def flags_only_refl split: option.splits dest: clearFlag_frame)

lemma markMutated_of_frame: "markMutated_of i t s = (r, s') \<Longrightarrow> flags_only s s'"
  by (auto simp add: markMutated_of_def flags_only_refl split: option.splits dest: markMutated_frame)

lemma initComponent_frame: "initComponent t i vals s = (r, s') \<Longrightarrow> flags_only s s'"
  by (auto simp add: initComponent_def flags_only_def split: option.splits)

lemma set_field_frame: "flags_only s (set_field c f v s)"
  by (cases c) (simp add: set_field_def flags_only_def)

lemma null_refs_frame: "flags_only s (null_refs c fs s)"
proof (induction fs arbitrary: s)
  case Nil
  show ?case by (simp add: flags_only_refl)
next
  case (Cons f fs)
  show ?case
    using Cons.IH [of "set_field c (name f) JNull s"] Cons.IH [of s]
    by (auto intro: flags_only_trans [OF set_field_frame])
qed

lemma Entity_write_frame: "Entity_write e t s = (r, s') \<Longrightarrow> flags_only s s'"
  by (auto simp add: Entity_write_def flags_only_refl
      split: sum.splits option.splits prod.splits dest: markMutated_of_frame)

lemma Entity_add_frame: "Entity_add e t vals s = (r, s') \<Longrightarrow> flags_only s s'"
  by (auto simp add: Entity_add_def flags_only_refl
      split: sum.splits option.splits prod.splits bool.splits
      dest: setFlag_of_frame initComponent_frame intro: flags_only_trans)

lemma Entity_deindexOutboundRefs_frame:
  "Entity_deindexOutboundRefs e t s = (r, s') \<Longrightarrow> flags_only s s'"
  by (auto simp add: Entity_deindexOutboundRefs_def flags_only_refl
      split: sum.splits prod.splits if_splits
      dest: Entity_write_frame intro: flags_only_trans null_refs_frame)

lemma Entity_remove_flag_frame: "Entity_remove_flag e t s = (r, s') \<Longrightarrow> flags_only s s'"
  by (auto simp add: Entity_remove_flag_def Entity_wipeInboundRefs_def
      split: sum.splits prod.splits option.splits if_splits
      dest: Entity_deindexOutboundRefs_frame clearFlag_of_frame intro: flags_only_trans)

lemma Entity_remove_frame: "Entity_remove e t s = (r, s') \<Longrightarrow> flags_only s s'"
  by (auto simp add: Entity_remove_def flags_only_refl
      split: sum.splits option.splits bool.splits dest: Entity_remove_flag_frame)

lemma Entity_delete_from_frame: "Entity_delete_from e ts s = (r, s') \<Longrightarrow> flags_only s s'"
proof (induction ts arbitrary: s)
  case Nil
  then show ?case by (simp add: flags_only_refl)
next
  case (Cons t ts)
  from Cons.prems show ?case
    by (auto simp add: flags_only_refl
        split: sum.splits option.splits bool.splits prod.splits
        dest: Entity_remove_flag_frame Cons.IH intro: flags_only_trans)
qed

lemma Entity_delete_frame: "Entity_delete e s = (r, s') \<Longrightarrow> flags_only s s'"
  by (auto simp add: Entity_delete_def flags_only_refl split: option.splits
      dest: Entity_delete_from_frame)

lemma add_initial_preserves:
  assumes step: "\<And>e t vals s r s'. P s \<Longrightarrow> Entity_add e t vals s = (r, s') \<Longrightarrow> P s'"
    and "P s" and "add_initial e ic s = (r, s')"
  shows "P s'"
  using assms(2,3)
proof (induction e ic s rule: add_initial.induct)
  case (1 e s)
  then show ?case by simp
next
  case (2 e v rest s)
  then show ?case by simp
next
  case (3 e t s)
  then show ?case using step by auto
next
  case (4 e t t' rest s)
  obtain a s1 where ea: "Entity_add e t None s = (a, s1)" by (cases "Entity_add e t None s")
  with "4.prems" have p1: "P s1" using step by blast
  show ?case
  proof (cases a)
    case (Inl err)
    with ea "4.prems" p1 show ?thesis by simp
  next
    case (Inr u)
    with ea "4.prems" have "add_initial e (AType t' # rest) s1 = (r, s')" by simp
    with "4.IH" ea Inr p1 show ?thesis by simp
  qed
next
  case (5 e t v rest s)
  obtain a s1 where ea: "Entity_add e t (Some v) s = (a, s1)" by (cases "Entity_add e t (Some v) s")
  with "5.prems" have p1: "P s1" using step by blast
  show ?case
  proof (cases a)
    case (Inl err)
    with ea "5.prems" p1 show ?thesis by simp
  next
    case (Inr u)
    with ea "5.prems" have "add_initial e rest s1 = (r, s')" by simp
    with "5.IH" ea Inr p1 show ?thesis by simp
  qed
qed

lemma add_initial_frame:
  assumes "add_initial e ic s = (r, s')"
  shows "flags_only s s'"
proof (rule add_initial_preserves [where P = "flags_only s", OF _ flags_only_refl assms])
  fix e' t vals s1 r1 s2
  assume "flags_only s s1" and "Entity_add e' t vals s1 = (r1, s2)"
  then show "flags_only s s2" by (blast intro: flags_only_trans dest: Entity_add_frame)
qed

subsection \<open>The scan of createEntity\<close>

lemma createEntity_loop_result:
  assumes "createEntity_loop ic initial i s = Some r"
  shows "(\<exists>j. free_slot s j \<and> r = allocate ic j s) \<or>
         r = (Inl (MaxEntitiesReached (maxNum s - 1)), s)"
proof (rule createEntity_loop.raw_induct
    [where P = "\<lambda>ic initial i s r. (\<exists>j. free_slot s j \<and> r = allocate ic j s) \<or>
         r = (Inl (MaxEntitiesReached (maxNum s - 1)), s)", OF _ assms])
  fix loop :: "arg list \<Rightarrow> nat \<Rightarrow> nat \<Rightarrow> Entities \<Rightarrow> nat result option"
    and ic initial i s r
  assume IH: "\<And>ic initial i s r. loop ic initial i s = Some r \<Longrightarrow>
      (\<exists>j. free_slot s j \<and> r = allocate ic j s) \<or>
      r = (Inl (MaxEntitiesReached (maxNum s - 1)), s)"
    and body: "(if \<not> isAllocated s i (current s) \<and> \<not> isAllocated s i (previous s)
      then Some (allocate ic i s)
      else if next_slot s i = initial
           then Some (Inl (MaxEntitiesReached (maxNum s - 1)), s)
           else loop ic initial (next_slot s i) s) = Some r"
  show "(\<exists>j. free_slot s j \<and> r = allocate ic j s) \<or>
         r = (Inl (MaxEntitiesReached (maxNum s - 1)), s)"
  proof (cases "\<not> isAllocated s i (current s) \<and> \<not> isAllocated s i (previous s)")
    case True
    with body have "r = allocate ic i s" by simp
    with True show ?thesis by (auto simp add: free_slot_def)
  next
    case False
    show ?thesis
    proof (cases "next_slot s i = initial")
      case True
      with False body show ?thesis by auto
    next
      case ns: False
      with False body have "loop ic initial (next_slot s i) s = Some r" by auto
      then show ?thesis by (rule IH)
    qed
  qed
qed

lemma loop_after_wrap:
  assumes "1 \<le> i" and "i < initial" and "initial < maxNum s"
    and "\<forall>j. (initial \<le> j \<and> j < maxNum s) \<or> (1 \<le> j \<and> j < i) \<longrightarrow> \<not> free_slot s j"
  shows "\<exists>r. createEntity_loop ic initial i s = Some r \<and> scan_result ic s r"
  using assms
proof (induction "initial - i" arbitrary: i)
  case 0
  then show ?case by simp
next
  case (Suc d)
  show ?case
  proof (cases "free_slot s i")
    case True
    then have "createEntity_loop ic initial i s = Some (allocate ic i s)"
      by (subst createEntity_loop.simps) (simp add: free_slot_def)
    moreover have "1 \<le> i \<and> i < maxNum s \<and> free_slot s i \<and> allocate ic i s = allocate ic i s"
      using True Suc.prems by simp
    then have "scan_result ic s (allocate ic i s)"
      unfolding scan_result_def by blast
    ultimately show ?thesis by blast
  next
    case False
    have ns: "next_slot s i = i + 1"
      using Suc.prems by (simp add: next_slot_def Let_def)
    show ?thesis
    proof (cases "i + 1 = initial")
      case True
      have "createEntity_loop ic initial i s = Some (Inl (MaxEntitiesReached (maxNum s - 1)), s)"
        using False True ns by (subst createEntity_loop.simps) (auto simp add: free_slot_def)
      moreover have "\<forall>j. 1 \<le> j \<and> j < maxNum s \<longrightarrow> \<not> free_slot s j"
      proof (intro allI impI)
        fix j assume j: "1 \<le> j \<and> j < maxNum s"
        show "\<not> free_slot s j"
        proof (cases "j = i")
          case True
          with False show ?thesis by simp
        next
          case nj: False
          with j True have "(initial \<le> j \<and> j < maxNum s) \<or> (1 \<le> j \<and> j < i)" by arith
          with Suc.prems(4) show ?thesis by blast
        qed
      qed
      ultimately show ?thesis by (auto simp add: scan_result_def)
    next
      case ne: False
      have step: "createEntity_loop ic initial i s = createEntity_loop ic initial (i + 1) s"
        using False ne ns by (subst createEntity_loop.simps) (auto simp add: free_slot_def)
      have "\<forall>j. (initial \<le> j \<and> j < maxNum s) \<or> (1 \<le> j \<and> j < i + 1) \<longrightarrow> \<not> free_slot s j"
      proof (intro allI impI)
        fix j assume j: "(initial \<le> j \<and> j < maxNum s) \<or> (1 \<le> j \<and> j < i + 1)"
        show "\<not> free_slot s j"
        proof (cases "j = i")
          case True
          with False show ?thesis by simp
        next
          case nj: False
          with j have "(initial \<le> j \<and> j < maxNum s) \<or> (1 \<le> j \<and> j < i)" by arith
          with Suc.prems(4) show ?thesis by blast
        qed
      qed
      moreover have "d = initial - (i + 1)" "1 \<le> i + 1" "i + 1 < initial"
        using Suc.hyps(2) Suc.prems ne by arith+
      ultimately have "\<exists>r. createEntity_loop ic initial (i + 1) s = Some r \<and> scan_result ic s r"
        using Suc.hyps(1) [of "i + 1"] Suc.prems(3) by blast
      with step show ?thesis by simp
    qed
  qed
qed

lemma loop_before_wrap:
  assumes "1 \<le> initial" and "initial \<le> i" and "i < maxNum s"
    and "\<forall>j. initial \<le> j \<and> j < i \<longrightarrow> \<not> free_slot s j"
  shows "\<exists>r. createEntity_loop ic initial i s = Some r \<and> scan_result ic s r"
  using assms
proof (induction "maxNum s - i" arbitrary: i)
  case 0
  then show ?case by simp
next
  case (Suc d)
  show ?case
  proof (cases "free_slot s i")
    case True
    then have "createEntity_loop ic initial i s = Some (allocate ic i s)"
      by (subst createEntity_loop.simps) (simp add: free_slot_def)
    moreover have "1 \<le> i \<and> i < maxNum s \<and> free_slot s i \<and> allocate ic i s = allocate ic i s"
      using True Suc.prems by simp
    then have "scan_result ic s (allocate ic i s)"
      unfolding scan_result_def by blast
    ultimately show ?thesis by blast
  next
    case False
    have visited: "\<forall>j. initial \<le> j \<and> j < i + 1 \<longrightarrow> \<not> free_slot s j"
    proof (intro allI impI)
      fix j assume j: "initial \<le> j \<and> j < i + 1"
      show "\<not> free_slot s j"
      proof (cases "j = i")
        case True
        with False show ?thesis by simp
      next
        case nj: False
        with j have "initial \<le> j \<and> j < i" by arith
        with Suc.prems(4) show ?thesis by blast
      qed
    qed
    show ?thesis
    proof (cases "i + 1 = maxNum s")
      case last: True
      then have ns: "next_slot s i = 1" by (simp add: next_slot_def Let_def)
      from last visited have all_hi: "\<forall>j. initial \<le> j \<and> j < maxNum s \<longrightarrow> \<not> free_slot s j"
        by simp
      show ?thesis
      proof (cases "initial = 1")
        case True
        have "createEntity_loop ic initial i s = Some (Inl (MaxEntitiesReached (maxNum s - 1)), s)"
          using False True ns by (subst createEntity_loop.simps) (auto simp add: free_slot_def)
        moreover have "\<forall>j. 1 \<le> j \<and> j < maxNum s \<longrightarrow> \<not> free_slot s j"
          using all_hi True by simp
        ultimately show ?thesis by (auto simp add: scan_result_def)
      next
        case ne: False
        have step: "createEntity_loop ic initial i s = createEntity_loop ic initial 1 s"
          using False ne ns by (subst createEntity_loop.simps) (auto simp add: free_slot_def)
        have "\<exists>r. createEntity_loop ic initial 1 s = Some r \<and> scan_result ic s r"
        proof (rule loop_after_wrap)
          show "1 \<le> (1::nat)" by simp
          show "1 < initial" using ne Suc.prems(1) by arith
          show "initial < maxNum s" using Suc.prems by arith
          show "\<forall>j. (initial \<le> j \<and> j < maxNum s) \<or> (1 \<le> j \<and> j < 1) \<longrightarrow> \<not> free_slot s j"
            using all_hi by auto
        qed
        with step show ?thesis by simp
      qed
    next
      case notlast: False
      then have ns: "next_slot s i = i + 1" by (simp add: next_slot_def Let_def)
      have ne: "i + 1 \<noteq> initial" using Suc.prems by arith
      have step: "createEntity_loop ic initial i s = createEntity_loop ic initial (i + 1) s"
        using False ne ns by (subst createEntity_loop.simps) (auto simp add: free_slot_def)
      have "d = maxNum s - (i + 1)" "initial \<le> i + 1" "i + 1 < maxNum s"
        using Suc.hyps(2) Suc.prems notlast by arith+
      then have "\<exists>r. createEntity_loop ic initial (i + 1) s = Some r \<and> scan_result ic s r"
        using Suc.hyps(1) [of "i + 1"] Suc.prems(1) visited by blast
      with step show ?thesis by simp
    qed
  qed
qed

lemma createEntity_scan:
  assumes "cursor_ok s"
  shows "\<exists>r. createEntity ic s = Some r \<and> scan_result ic s r"
  unfolding createEntity_def
  using assms by (intro loop_before_wrap) (auto simp add: cursor_ok_def)

subsection \<open>Binding and the pool\<close>


lemma bind_ok:
  assumes "pool_ok s"
  shows "\<exists>e s'. bind a s = (Inr e, s') \<and> borrowed s = Some e \<and> borrowed s' = Some e \<and>
           pool_ok s' \<and> this_id s' e = Some a \<and> handles_only s s'"
proof (cases "next (pool s) = length (list (pool s))")
  case True
  then show ?thesis
    using assms
    by (auto simp add: bind_def borrow_def borrowed_def Pool_grow_def new_Class_def list_at_def
        Let_def pool_ok_def Entity_reset_def this_id_def handles_only_def nth_append less_Suc_eq)
next
  case False
  with assms have lt: "next (pool s) < length (list (pool s))" by (simp add: pool_ok_def)
  then have "list (pool s) ! next (pool s) < length (heap s)"
    using assms by (simp add: pool_ok_def)
  with lt False show ?thesis
    using assms
    by (auto simp add: bind_def borrow_def borrowed_def Pool_grow_def list_at_def
        Let_def pool_ok_def Entity_reset_def this_id_def handles_only_def)
qed

lemma flags_only_pool: "flags_only s s' \<Longrightarrow> pool_ok s' = pool_ok s"
  by (simp add: flags_only_def pool_ok_def)

lemma flags_only_borrowed: "flags_only s s' \<Longrightarrow> borrowed s' = borrowed s"
  by (simp add: flags_only_def borrowed_def)

lemma flags_only_this_id: "flags_only s s' \<Longrightarrow> this_id s' e = this_id s e"
  by (simp add: flags_only_def this_id_def)

lemma nextId_update_keeps:
  "pool_ok (s\<lparr>nextId := n\<rparr>) = pool_ok s"
  "borrowed (s\<lparr>nextId := n\<rparr>) = borrowed s"
  "this_id (s\<lparr>nextId := n\<rparr>) e = this_id s e"
  by (simp_all add: pool_ok_def borrowed_def this_id_def)

lemma allocate_ok:
  assumes "pool_ok s" and "allocate ic i s = (r, s')"
  shows "pool_ok s' \<and> borrowed s' = borrowed s \<and> previous s' = previous s \<and>
         stride s' = stride s \<and> maxNum s' = maxNum s \<and> controllers s' = controllers s \<and>
         (\<forall>e. r = Inr e \<longrightarrow> borrowed s = Some e \<and> this_id s' e = Some (Some i))"
proof -
  from bind_ok [OF assms(1), of "Some i"] obtain e s1 where
    b: "bind (Some i) s = (Inr e, s1)" "borrowed s = Some e" "borrowed s1 = Some e"
       "pool_ok s1" "this_id s1 e = Some (Some i)" "handles_only s s1"
    by blast
  obtain a s2 where ai: "add_initial e ic s1 = (a, s2)" by (cases "add_initial e ic s1")
  then have f: "flags_only s1 s2" by (rule add_initial_frame)
  have p2: "pool_ok s2" "borrowed s2 = Some e" "this_id s2 e = Some (Some i)"
    using f b by (simp_all add: flags_only_pool flags_only_borrowed flags_only_this_id)
  have fr: "previous s2 = previous s" "stride s2 = stride s" "maxNum s2 = maxNum s"
    "controllers s2 = controllers s"
    using f b(6) by (simp_all add: flags_only_def handles_only_def)
  show ?thesis
  proof (cases a)
    case (Inl err)
    with assms(2) b(1) ai have "s' = s2" "r = Inl err" by (simp_all add: allocate_def)
    with p2 fr b(2) show ?thesis by simp
  next
    case (Inr u)
    with assms(2) b(1) ai have "s' = s2\<lparr>nextId := next_slot s2 i\<rparr>" "r = Inr e"
      by (simp_all add: allocate_def)
    with p2 fr b(2) show ?thesis by (simp add: nextId_update_keeps)
  qed
qed

lemma createEntity_ok:
  assumes "pool_ok s" and "createEntity ic s = Some (r, s')"
  shows "pool_ok s' \<and> borrowed s' = borrowed s \<and> previous s' = previous s \<and>
         stride s' = stride s \<and> maxNum s' = maxNum s \<and> controllers s' = controllers s \<and>
         (\<forall>e. r = Inr e \<longrightarrow> borrowed s = Some e \<and>
            (\<exists>i. this_id s' e = Some (Some i) \<and> free_slot s i))"
proof -
  from assms(2) have "(\<exists>j. free_slot s j \<and> (r, s') = allocate ic j s) \<or>
      (r, s') = (Inl (MaxEntitiesReached (maxNum s - 1)), s)"
    unfolding createEntity_def by (rule createEntity_loop_result)
  then show ?thesis
  proof
    assume "\<exists>j. free_slot s j \<and> (r, s') = allocate ic j s"
    then obtain j where j: "free_slot s j" "allocate ic j s = (r, s')" by auto
    from allocate_ok [OF assms(1) j(2)] j(1) show ?thesis by blast
  next
    assume "(r, s') = (Inl (MaxEntitiesReached (maxNum s - 1)), s)"
    with assms(1) show ?thesis by simp
  qed
qed

subsection \<open>Mask building\<close>

text \<open>
  C6.  \<open>extendMaskAndSetFlag\<close> on the empty mask and the component type 32, whose flag
  word offset is 1: the mask grows to two words and the bit is set, but the gap word 0
  is left a hole and is not zero, because \<open>fill\<close> is called with the new length as its
  start.  With the hole the positive mask matches no slot, not even slot 1 of \<open>store_C\<close>,
  which holds the component; with the zero in its place it matches.
\<close>

theorem extendMaskAndSetFlag_leaves_hole:
  "extendMaskAndSetFlag store_C [] 32 = Inr [None, Some 1] \<and>
   hasFlag store_C 1 32 = Inr True \<and>
   \<not> matchCurrent store_C 1 (Some [None, Some 1]) None \<and>
   matchCurrent store_C 1 (Some [Some 0, Some 1]) None"
  by (simp add: extendMaskAndSetFlag_def store_C_fields arr_set_length_def arr_fill_def
      arr_put_def arr_get_def ToInt32_def Let_def hasFlag_def ta_get_def elem_bits_def
      matchCurrent_def match_def)

subsection \<open>The scanning kernel against matchCurrent\<close>

text \<open>
  C1.  In \<open>store_B\<close> a slot has two flag words and slot 1 holds the component of type 0.
  For the positive mask of type 0, \<open>matchCurrent\<close> accepts slot 1 and rejects slot 2,
  while the kernel run by \<open>iterateAll\<close> writes slot 2 and not slot 1 into the scratch
  view: it advances by one word for each slot, whatever the stride, and tests the first
  mask word only.
\<close>

theorem kernel_disagrees_with_matchCurrent:
  "written_ids (iterateAll (Some [Some 1]) None store_B) = Some [2] \<and>
   matchCurrent store_B 1 (Some [Some 1]) None \<and>
   \<not> matchCurrent store_B 2 (Some [Some 1]) None"
  by (simp add: written_ids_def iterateAll_def wasm_iterateAll_def wasm_loop.simps
      mem_load_def mem_store_def memory_of_def first_word_def arr_get_def store_B_fields
      matchCurrent_def match_def ta_get_def elem_bits_def ToInt32_def nth_append)

subsection \<open>Flushing during iteration\<close>

lemma bind_dispatcher: "bind a s = (r, s') \<Longrightarrow> dispatcher s' = dispatcher s"
  by (auto simp add: bind_def split: prod.splits option.splits)

lemma iterate_next_flushes:
  "flushes (dispatcher (snd (iterate_next predicate it s))) = flushes (dispatcher s) + 1"
  by (auto simp add: iterate_next_def Let_def flush_def split: prod.split sum.split
      dest!: bind_dispatcher)

lemma iterateAll_next_flushes:
  "flushes (dispatcher (snd (iterateAll_next it s)))
     = (if idx it \<ge> 0 then flushes (dispatcher s) + 1 else flushes (dispatcher s))"
  by (auto simp add: iterateAll_next_def Let_def flush_def split: prod.split sum.split
      dest!: bind_dispatcher)

text \<open>
  C5.  The first \<open>next()\<close> of the iterator of \<open>iterate\<close>, on \<open>store_A\<close> with the predicate
  that slot 1 satisfies: it yields the handle bound to slot 1, and the dispatcher has
  been flushed once, before this first element was produced.
\<close>

theorem iterate_flushes_before_first_element:
  "fst (iterate_next has_type0 (iterate store_A) store_A)
     = Inr (Some 0, \<lparr>iter_id = 2, entity = Some 0\<rparr>) \<and>
   slot_of (snd (iterate_next has_type0 (iterate store_A) store_A)) 0 = Some 1 \<and>
   flushes (dispatcher store_A) = 0 \<and>
   flushes (dispatcher (snd (iterate_next has_type0 (iterate store_A) store_A))) = 1"
  by (simp add: iterate_next_def iterate_def flush_def iterate_skip.simps has_type0_def
      matchCurrent_def match_def store_A_def model_defs ToInt32_def)

subsection \<open>Capability checks\<close>

text \<open>
  C9.  On a bound handle, while a system's masks are active: when the type is not in the
  read mask, \<open>has\<close>, \<open>read\<close> and \<open>readIfPresent\<close> fail with the capability error, and when
  it is not in the write mask, \<open>write\<close> fails with it and changes nothing.  Nothing is
  assumed about the presence bit: the check comes first.
\<close>

theorem capability_checked_first:
  assumes "this_id s e = Some eid" and "rwMasks (dispatcher s) = Some rw"
  shows "(maskHasFlag s (read rw) t = Inr False \<longrightarrow>
            Entity_has s e t = Inl (NotMarked t False) \<and>
            Entity_read s e t = Inl (NotMarked t False) \<and>
            Entity_readIfPresent s e t = Inl (NotMarked t False)) \<and>
         (maskHasFlag s (write rw) t = Inr False \<longrightarrow>
            Entity_write e t s = (Inl (NotMarked t True), s))"
  using assms
  by (simp add: Entity_has_def Entity_read_def Entity_readIfPresent_def Entity_write_def
      Entity_get_def Entity_checkMask_def)

lemma store_M_fields:
  "this_id store_M 0 = Some (Some 1)"
  "rwMasks (dispatcher store_M) = Some \<lparr>read = [], write = []\<rparr>"
  "maskHasFlag store_M [] 0 = Inr False"
  "hasFlag store_M 1 0 = Inr True"
  by (simp_all add: store_M_def model_defs maskHasFlag_def arr_get_def ToInt32_def)

theorem capability_checked_first_witness:
  "this_id store_M 0 = Some (Some 1) \<and>
   rwMasks (dispatcher store_M) = Some \<lparr>read = [], write = []\<rparr> \<and>
   maskHasFlag store_M [] 0 = Inr False \<and>
   hasFlag store_M 1 0 = Inr True \<and>
   Entity_has store_M 0 0 = Inl (NotMarked 0 False) \<and>
   Entity_read store_M 0 0 = Inl (NotMarked 0 False) \<and>
   Entity_readIfPresent store_M 0 0 = Inl (NotMarked 0 False) \<and>
   Entity_write 0 0 store_M = (Inl (NotMarked 0 True), store_M)"
  using capability_checked_first [of store_M 0 "Some 1" "\<lparr>read = [], write = []\<rparr>" 0]
    store_M_fields
  by simp

subsection \<open>The shared handle\<close>

lemma dispatcher_update_keeps:
  "pool_ok (s\<lparr>dispatcher := d\<rparr>) = pool_ok s"
  "borrowed (s\<lparr>dispatcher := d\<rparr>) = borrowed s"
  by (simp_all add: pool_ok_def borrowed_def)

lemma step_keeps_pool:
  assumes "step s = (r, s')"
  shows "pool_ok s' = pool_ok s \<and> borrowed s' = borrowed s"
  using assms by (auto simp add: step_def pool_ok_def borrowed_def split: option.splits)

lemma exec_keeps_pool:
  assumes "pool_ok s" and "exec x s = Some (out, s1)"
  shows "pool_ok s1 \<and> borrowed s1 = borrowed s \<and>
         (\<forall>e i. out = Created e i \<or> out = Bound e i \<longrightarrow> borrowed s = Some e)"
proof (cases x)
  case (Create ic)
  with assms(2) obtain r s2 where c0: "createEntity ic s = Some (r, s2)"
    and oc: "outcome_of (\<lambda>e s'. Created e (slot_of s' e)) (r, s2) = (out, s1)"
    by auto
  then have c: "createEntity ic s = Some (r, s1)"
    and out: "out = (case r of Inl err \<Rightarrow> Failed err | Inr e \<Rightarrow> Created e (slot_of s1 e))"
    by (auto simp add: outcome_of_def split: sum.splits)
  from createEntity_ok [OF assms(1) c] out show ?thesis
    by (auto split: sum.splits)
next
  case (Add e t vals)
  with assms(2) obtain r where "Entity_add e t vals s = (r, s1)" and "out = Failed (projl r) \<or> out = Done"
    by (auto simp add: outcome_of_def split: sum.splits prod.splits)
  then show ?thesis
    using assms(1) by (auto dest!: Entity_add_frame simp add: flags_only_pool flags_only_borrowed)
next
  case (Remove e t)
  with assms(2) obtain r where "Entity_remove e t s = (r, s1)" and "(\<exists>err. out = Failed err) \<or> (\<exists>b. out = Removed b)"
    by (auto simp add: outcome_of_def split: sum.splits prod.splits)
  then show ?thesis
    using assms(1) by (auto dest!: Entity_remove_frame simp add: flags_only_pool flags_only_borrowed)
next
  case (Write e t)
  with assms(2) obtain r where "Entity_write e t s = (r, s1)" and "(\<exists>err. out = Failed err) \<or> out = Done"
    by (auto simp add: outcome_of_def split: sum.splits prod.splits)
  then show ?thesis
    using assms(1) by (auto dest!: Entity_write_frame simp add: flags_only_pool flags_only_borrowed)
next
  case (Delete e)
  with assms(2) obtain r where "Entity_delete e s = (r, s1)" and "(\<exists>err. out = Failed err) \<or> out = Done"
    by (auto simp add: outcome_of_def split: sum.splits prod.splits)
  then show ?thesis
    using assms(1) by (auto dest!: Entity_delete_frame simp add: flags_only_pool flags_only_borrowed)
next
  case (Bind i)
  from bind_ok [OF assms(1), of "Some i"] obtain e s' where
    b: "bind (Some i) s = (Inr e, s')" "borrowed s = Some e" "borrowed s' = Some e" "pool_ok s'"
    by blast
  with Bind assms(2) show ?thesis
    by (auto simp add: outcome_of_def)
next
  case Flush
  with assms show ?thesis by (auto simp add: flush_def dispatcher_update_keeps)
next
  case (SetMasks rw)
  with assms show ?thesis by (auto simp add: dispatcher_update_keeps)
next
  case Step
  with assms(2) obtain r where "step s = (r, s1)" and "(\<exists>err. out = Failed err) \<or> out = Done"
    by (auto simp add: outcome_of_def split: sum.splits prod.splits)
  then show ?thesis
    using assms(1) step_keeps_pool by auto
qed






subsection \<open>Removing a component\<close>

lemma null_refs_views:
  "current (null_refs c fs s) = current s"
  "mutations (null_refs c fs s) = mutations s"
  by (induction fs arbitrary: s; cases c; simp add: set_field_def)+

lemma null_refs_storage:
  "storage (null_refs (Component t eid w) fs s) (t, eid, n)
     = (if \<exists>f \<in> set fs. type f = T_ref \<and> name f = n then Some JNull else storage s (t, eid, n))"
  by (induction fs arbitrary: s) (auto simp add: set_field_def)

lemma hasFlag_cong:
  "current s' = current s \<Longrightarrow> stride s' = stride s \<Longrightarrow> controllers s' = controllers s
     \<Longrightarrow> hasFlag s' i t = hasFlag s i t"
  by (simp add: hasFlag_def split: option.split)

lemma clearFlag_clears:
  assumes "map_of (controllers s) t = Some ctrl"
  shows "\<exists>s2. clearFlag i t s = (Inr (), s2) \<and> hasFlag s2 i t = Inr False \<and>
           storage s2 = storage s \<and> previous s2 = previous s \<and> mutations s2 = mutations s"
proof -
  have "(w AND NOT (flagMask ctrl)) AND flagMask ctrl = 0" for w :: u32
    by (simp add: and.assoc)
  then show ?thesis
    using assms
    by (auto simp add: clearFlag_def hasFlag_def Let_def ta_put_def ta_get_def elem_bits_def)
qed

lemma write_present:
  assumes bound: "this_id s e = Some (Some i)"
    and ctrl: "map_of (controllers s) t = Some ctrl"
    and wr: "Entity_checkMask s e t True = None"
    and rdm: "Entity_checkMask s e t False = None"
    and present: "hasFlag s i t = Inr True"
  shows "\<exists>s0. Entity_write e t s = (Inr (Component t (Some i) True), s0) \<and>
           current s0 = current s \<and> stride s0 = stride s \<and> controllers s0 = controllers s \<and>
           heap s0 = heap s \<and> previous s0 = previous s \<and> storage s0 = storage s"
proof -
  have has: "Entity_has s e t = Inr True"
    using bound rdm present by (simp add: Entity_has_def hasFlag_of_def)
  have bc: "bindComponent s t (Some i) True = Inr (Component t (Some i) True)"
    using ctrl by (simp add: bindComponent_def)
  have get: "Entity_get s e t True = Inr (Some (Component t (Some i) True))"
    by (simp add: Entity_get_def wr has bound bc)
  define s0 where "s0 = s\<lparr>mutations := ta_put (mutations s) (i * stride s + flagOffset ctrl)
      (elem_bits (ta_get (mutations s) (i * stride s + flagOffset ctrl)) OR flagMask ctrl)\<rparr>"
  have mm: "markMutated_of (Some i) t s = (Inr (), s0)"
    by (simp add: markMutated_of_def markMutated_def ctrl Let_def s0_def)
  have "Entity_write e t s = (Inr (Component t (Some i) True), s0)"
    by (simp add: Entity_write_def get bound mm)
  moreover have "current s0 = current s" "stride s0 = stride s" "controllers s0 = controllers s"
    "heap s0 = heap s" "previous s0 = previous s" "storage s0 = storage s"
    by (simp_all add: s0_def)
  ultimately show ?thesis by blast
qed

lemma deindex_present:
  assumes bound: "this_id s e = Some (Some i)"
    and ctrl: "map_of (controllers s) t = Some ctrl"
    and wr: "Entity_checkMask s e t True = None"
    and rd: "list_ex (\<lambda>f. type f = T_ref) (ctrl_fields ctrl) \<longrightarrow> Entity_checkMask s e t False = None"
    and present: "hasFlag s i t = Inr True"
  shows "\<exists>s1. Entity_deindexOutboundRefs e t s = (Inr (), s1) \<and>
      (list_ex (\<lambda>f. type f = T_ref) (ctrl_fields ctrl) \<longrightarrow>
         (\<exists>c s0. Entity_write e t s = (Inr c, s0) \<and> s1 = null_refs c (ctrl_fields ctrl) s0)) \<and>
      (\<forall>f \<in> set (ctrl_fields ctrl).
         type f = T_ref \<longrightarrow> storage s1 (t, Some i, name f) = Some JNull) \<and>
      current s1 = current s \<and> stride s1 = stride s \<and> controllers s1 = controllers s \<and>
      heap s1 = heap s \<and> previous s1 = previous s"
proof (cases "list_ex (\<lambda>f. type f = T_ref) (ctrl_fields ctrl)")
  case True
  with rd have rdm: "Entity_checkMask s e t False = None" by simp
  from write_present [OF bound ctrl wr rdm present] obtain s0 where
    w: "Entity_write e t s = (Inr (Component t (Some i) True), s0)"
    and s0: "current s0 = current s" "stride s0 = stride s" "controllers s0 = controllers s"
      "heap s0 = heap s" "previous s0 = previous s"
    by blast
  define s1 where "s1 = null_refs (Component t (Some i) True) (ctrl_fields ctrl) s0"
  have gf: "getFields s t = Inr (ctrl_fields ctrl)"
    using ctrl by (simp add: getFields_def)
  have d: "Entity_deindexOutboundRefs e t s = (Inr (), s1)"
    by (simp add: Entity_deindexOutboundRefs_def gf True w s1_def)
  have n: "\<forall>f \<in> set (ctrl_fields ctrl).
       type f = T_ref \<longrightarrow> storage s1 (t, Some i, name f) = Some JNull"
    unfolding s1_def null_refs_storage by auto
  have fr: "flags_only s0 s1" unfolding s1_def by (rule null_refs_frame)
  have v: "current s1 = current s" "stride s1 = stride s"
    "controllers s1 = controllers s" "heap s1 = heap s" "previous s1 = previous s"
    using s0 fr by (simp_all add: s1_def null_refs_views flags_only_def)
  have "\<exists>c s0. Entity_write e t s = (Inr c, s0) \<and> s1 = null_refs c (ctrl_fields ctrl) s0"
    using w s1_def by blast
  with d n v show ?thesis by blast
next
  case False
  have gf: "getFields s t = Inr (ctrl_fields ctrl)"
    using ctrl by (simp add: getFields_def)
  have "Entity_deindexOutboundRefs e t s = (Inr (), s)"
    by (simp add: Entity_deindexOutboundRefs_def gf False)
  moreover have "\<forall>f \<in> set (ctrl_fields ctrl).
       type f = T_ref \<longrightarrow> storage s (t, Some i, name f) = Some JNull"
    using False by (auto simp add: list_ex_iff)
  ultimately show ?thesis using False by simp
qed

text \<open>
  For a registered type the capability check passes or fails with its own error; it
  passes when no masks are active or the type is in the mask that is asked about.
\<close>

lemma checkMask_registered:
  assumes "this_id s e = Some eid" and "map_of (controllers s) t = Some ctrl"
  shows "Entity_checkMask s e t wr = None \<or> Entity_checkMask s e t wr = Some (NotMarked t wr)"
  using assms
  by (auto simp add: Entity_checkMask_def maskHasFlag_def split: option.split bool.split)

lemma checkMask_passes_iff:
  assumes "this_id s e = Some eid" and "map_of (controllers s) t = Some ctrl"
  shows "Entity_checkMask s e t wr = None \<longleftrightarrow>
     (case rwMasks (dispatcher s) of
        None \<Rightarrow> True
      | Some rw \<Rightarrow> maskHasFlag s (if wr then write rw else read rw) t = Inr True)"
  using assms
  by (auto simp add: Entity_checkMask_def maskHasFlag_def split: option.split bool.split)

text \<open>
  \<open>remove\<close> fails, with the store as it was, when its own check fails, and when the
  component is present with a reference field and the check of the read mask, which
  \<open>write\<close> makes through \<open>has\<close>, fails.
\<close>

lemma remove_not_writable:
  assumes "Entity_checkMask s e t True = Some err"
  shows "Entity_remove e t s = (Inl err, s)"
  using assms by (simp add: Entity_remove_def)

lemma remove_not_readable:
  assumes bound: "this_id s e = Some (Some i)"
    and ctrl: "map_of (controllers s) t = Some ctrl"
    and wr: "Entity_checkMask s e t True = None"
    and present: "hasFlag s i t = Inr True"
    and refs: "list_ex (\<lambda>f. type f = T_ref) (ctrl_fields ctrl)"
    and rd: "Entity_checkMask s e t False = Some err"
  shows "Entity_remove e t s = (Inl err, s)"
proof -
  have "Entity_has s e t = Inl err"
    using rd by (simp add: Entity_has_def)
  then have "Entity_get s e t True = Inl err"
    using wr by (simp add: Entity_get_def)
  then have "Entity_write e t s = (Inl err, s)"
    by (simp add: Entity_write_def)
  moreover have "getFields s t = Inr (ctrl_fields ctrl)"
    using ctrl by (simp add: getFields_def)
  ultimately have "Entity_deindexOutboundRefs e t s = (Inl err, s)"
    using refs by (simp add: Entity_deindexOutboundRefs_def)
  then have "Entity_remove_flag e t s = (Inl err, s)"
    by (simp add: Entity_remove_flag_def)
  then show ?thesis
    using wr bound present by (simp add: Entity_remove_def hasFlag_of_def)
qed

text \<open>
  C8, as amended.  On a handle bound to slot \<open>i\<close> and for a registered type, \<open>remove\<close>
  does one of four things.  When its capability check fails (masks are active and the
  type is not in the write mask) it throws the capability error and the store is
  unchanged, whatever the presence bit.  When the check passes and the presence bit is
  clear, it returns false and the store is unchanged.  When the check passes, the bit is
  set and, if the component declares a reference field, the check of the read mask
  passes too, it first takes write access when there is a reference field and sets every
  field declared as a reference to null, in a state \<open>s1\<close> where the bit is still set,
  then clears the bit, and returns true.  When the check passes, the bit is set, the
  component declares a reference field and the check of the read mask fails, it throws
  that capability error and the store is unchanged.
\<close>

theorem remove_outcomes:
  assumes bound: "this_id s e = Some (Some i)"
    and ctrl: "map_of (controllers s) t = Some ctrl"
  shows "(Entity_checkMask s e t True \<noteq> None \<longrightarrow>
            Entity_checkMask s e t True = Some (NotMarked t True) \<and>
            Entity_remove e t s = (Inl (NotMarked t True), s)) \<and>
         (Entity_checkMask s e t True = None \<and> hasFlag s i t = Inr False \<longrightarrow>
            Entity_remove e t s = (Inr False, s)) \<and>
         (Entity_checkMask s e t True = None \<and> hasFlag s i t = Inr True \<and>
          (list_ex (\<lambda>f. type f = T_ref) (ctrl_fields ctrl) \<longrightarrow>
             Entity_checkMask s e t False = None) \<longrightarrow>
            (\<exists>s1 s2.
               Entity_deindexOutboundRefs e t s = (Inr (), s1) \<and>
               (list_ex (\<lambda>f. type f = T_ref) (ctrl_fields ctrl) \<longrightarrow>
                  (\<exists>c s0. Entity_write e t s = (Inr c, s0) \<and> s1 = null_refs c (ctrl_fields ctrl) s0)) \<and>
               (\<forall>f \<in> set (ctrl_fields ctrl).
                  type f = T_ref \<longrightarrow> storage s1 (t, Some i, name f) = Some JNull) \<and>
               hasFlag s1 i t = Inr True \<and>
               clearFlag i t s1 = (Inr (), s2) \<and>
               Entity_remove e t s = (Inr True, s2) \<and>
               hasFlag s2 i t = Inr False \<and>
               storage s2 = storage s1 \<and> previous s2 = previous s)) \<and>
         (Entity_checkMask s e t True = None \<and> hasFlag s i t = Inr True \<and>
          list_ex (\<lambda>f. type f = T_ref) (ctrl_fields ctrl) \<and>
          Entity_checkMask s e t False \<noteq> None \<longrightarrow>
            Entity_checkMask s e t False = Some (NotMarked t False) \<and>
            Entity_remove e t s = (Inl (NotMarked t False), s))"
proof (intro conjI impI)
  assume "Entity_checkMask s e t True \<noteq> None"
  with checkMask_registered [OF bound ctrl, of True]
  show w: "Entity_checkMask s e t True = Some (NotMarked t True)" by simp
  then show "Entity_remove e t s = (Inl (NotMarked t True), s)"
    by (rule remove_not_writable)
next
  assume "Entity_checkMask s e t True = None \<and> hasFlag s i t = Inr False"
  then show "Entity_remove e t s = (Inr False, s)"
    by (simp add: Entity_remove_def hasFlag_of_def bound)
next
  assume a: "Entity_checkMask s e t True = None \<and> hasFlag s i t = Inr True \<and>
     list_ex (\<lambda>f. type f = T_ref) (ctrl_fields ctrl) \<and> Entity_checkMask s e t False \<noteq> None"
  with checkMask_registered [OF bound ctrl, of False]
  show r: "Entity_checkMask s e t False = Some (NotMarked t False)" by simp
  from a show "Entity_remove e t s = (Inl (NotMarked t False), s)"
    using remove_not_readable [OF bound ctrl _ _ _ r] by simp
next
  assume a: "Entity_checkMask s e t True = None \<and> hasFlag s i t = Inr True \<and>
     (list_ex (\<lambda>f. type f = T_ref) (ctrl_fields ctrl) \<longrightarrow> Entity_checkMask s e t False = None)"
  then have wr: "Entity_checkMask s e t True = None"
    and present: "hasFlag s i t = Inr True"
    and rd: "list_ex (\<lambda>f. type f = T_ref) (ctrl_fields ctrl) \<longrightarrow> Entity_checkMask s e t False = None"
    by simp_all
  from deindex_present [OF bound ctrl wr rd present]
  obtain s1 where d: "Entity_deindexOutboundRefs e t s = (Inr (), s1)"
    and wpart: "list_ex (\<lambda>f. type f = T_ref) (ctrl_fields ctrl) \<longrightarrow>
         (\<exists>c s0. Entity_write e t s = (Inr c, s0) \<and> s1 = null_refs c (ctrl_fields ctrl) s0)"
    and nulled: "\<forall>f \<in> set (ctrl_fields ctrl).
         type f = T_ref \<longrightarrow> storage s1 (t, Some i, name f) = Some JNull"
    and same: "current s1 = current s" "stride s1 = stride s" "controllers s1 = controllers s"
       "heap s1 = heap s" "previous s1 = previous s"
    by blast
  have p1: "hasFlag s1 i t = Inr True"
    using present hasFlag_cong [of s1 s i t] same by simp
  have "this_id s1 e = this_id s e"
    using same(4) by (simp add: this_id_def)
  with bound have b1: "this_id s1 e = Some (Some i)" by simp
  have ctrl1: "map_of (controllers s1) t = Some ctrl"
    using ctrl same by simp
  from clearFlag_clears [OF ctrl1, of i] obtain s2 where
    c: "clearFlag i t s1 = (Inr (), s2)" "hasFlag s2 i t = Inr False"
       "storage s2 = storage s1" "previous s2 = previous s1"
    by blast
  have rf: "Entity_remove_flag e t s = (Inr True, s2)"
    by (simp add: Entity_remove_flag_def d b1 clearFlag_of_def c(1) Entity_wipeInboundRefs_def)
  have r: "Entity_remove e t s = (Inr True, s2)"
    by (simp add: Entity_remove_def wr bound hasFlag_of_def present rf)
  have pv: "previous s2 = previous s" using c(4) same(5) by simp
  show "\<exists>s1 s2.
       Entity_deindexOutboundRefs e t s = (Inr (), s1) \<and>
       (list_ex (\<lambda>f. type f = T_ref) (ctrl_fields ctrl) \<longrightarrow>
          (\<exists>c s0. Entity_write e t s = (Inr c, s0) \<and> s1 = null_refs c (ctrl_fields ctrl) s0)) \<and>
       (\<forall>f \<in> set (ctrl_fields ctrl).
          type f = T_ref \<longrightarrow> storage s1 (t, Some i, name f) = Some JNull) \<and>
       hasFlag s1 i t = Inr True \<and>
       clearFlag i t s1 = (Inr (), s2) \<and>
       Entity_remove e t s = (Inr True, s2) \<and>
       hasFlag s2 i t = Inr False \<and>
       storage s2 = storage s1 \<and> previous s2 = previous s"
    using d wpart nulled p1 c(1,2,3) r pv
    by (intro exI [of _ s1] exI [of _ s2] conjI)
qed

text \<open>
  C8 as stated fails: on a new slot, which does not hold the component of type 0, while
  a system that declared no writable type is executing, \<open>remove\<close> does not return false
  but throws the capability error.
\<close>

theorem remove_throws_when_not_writable:
  "outcomes (run_new 1 [0] no_fields
      [Create [], SetMasks (Some \<lparr>read = [], write = []\<rparr>), Remove 0 0])
     = Some [Created 0 (Some 1), Done, Failed (NotMarked 0 True)]"
  by (simp add: model_defs no_fields_def maskHasFlag_def arr_get_def ToInt32_def)

lemma store_R_fields:
  "this_id store_R 0 = Some (Some 1)"
  "map_of (controllers store_R) 0
     = Some \<lparr>flagOffset = 0, flagMask = 1, ctrl_fields = ref_schema 0\<rparr>"
  "Entity_checkMask store_R 0 0 True = None"
  "Entity_checkMask store_R 0 0 False = None"
  "hasFlag store_R 1 0 = Inr True"
  "storage store_R (0, Some 1, ''target'') = Some (JRef 1)"
  by (simp_all add: store_R_def model_defs ref_schema_def maskHasFlag_def arr_get_def ToInt32_def)

lemma store_W_fields:
  "this_id store_W 0 = Some (Some 1)"
  "map_of (controllers store_W) 0
     = Some \<lparr>flagOffset = 0, flagMask = 1, ctrl_fields = ref_schema 0\<rparr>"
  "Entity_checkMask store_W 0 0 True = None"
  "Entity_checkMask store_W 0 0 False = Some (NotMarked 0 False)"
  "hasFlag store_W 1 0 = Inr False"
  by (simp_all add: store_W_def model_defs ref_schema_def maskHasFlag_def arr_get_def ToInt32_def)

lemma store_X_fields:
  "this_id store_X 0 = Some (Some 1)"
  "map_of (controllers store_X) 0
     = Some \<lparr>flagOffset = 0, flagMask = 1, ctrl_fields = ref_schema 0\<rparr>"
  "Entity_checkMask store_X 0 0 True = None"
  "Entity_checkMask store_X 0 0 False = Some (NotMarked 0 False)"
  "hasFlag store_X 1 0 = Inr True"
  "storage store_X (0, Some 1, ''target'') = Some (JRef 1)"
  by (simp_all add: store_X_def model_defs ref_schema_def maskHasFlag_def arr_get_def ToInt32_def)

lemma store_M_write:
  "map_of (controllers store_M) 0 = Some \<lparr>flagOffset = 0, flagMask = 1, ctrl_fields = []\<rparr>"
  "Entity_checkMask store_M 0 0 True = Some (NotMarked 0 True)"
  by (simp_all add: store_M_def model_defs maskHasFlag_def arr_get_def ToInt32_def)

text \<open>
  The last case in a run: the component is present and writable but not readable, and
  \<open>remove\<close> throws the capability error of the read mask.
\<close>

lemma remove_throws_when_not_readable:
  "outcomes (run_new 1 [0] ref_schema
      [Create [AType 0, AValues [(''target'', JRef 1), (''weight'', JNum 5)]],
       SetMasks (Some \<lparr>read = [], write = [Some 1]\<rparr>), Remove 0 0])
     = Some [Created 0 (Some 1), Done, Failed (NotMarked 0 False)]"
  by (simp add: model_defs ref_schema_def maskHasFlag_def arr_get_def ToInt32_def)


theorem remove_outcomes_witness:
  "this_id store_M 0 = Some (Some 1) \<and>
   hasFlag store_M 1 0 = Inr True \<and>
   Entity_checkMask store_M 0 0 True = Some (NotMarked 0 True) \<and>
   Entity_remove 0 0 store_M = (Inl (NotMarked 0 True), store_M) \<and>
   this_id store_W 0 = Some (Some 1) \<and>
   Entity_checkMask store_W 0 0 True = None \<and>
   Entity_checkMask store_W 0 0 False = Some (NotMarked 0 False) \<and>
   hasFlag store_W 1 0 = Inr False \<and>
   Entity_remove 0 0 store_W = (Inr False, store_W) \<and>
   this_id store_R 0 = Some (Some 1) \<and>
   Entity_checkMask store_R 0 0 True = None \<and>
   Entity_checkMask store_R 0 0 False = None \<and>
   hasFlag store_R 1 0 = Inr True \<and>
   storage store_R (0, Some 1, ''target'') = Some (JRef 1) \<and>
   (\<exists>s1 s2. Entity_deindexOutboundRefs 0 0 store_R = (Inr (), s1) \<and>
      storage s1 (0, Some 1, ''target'') = Some JNull \<and>
      hasFlag s1 1 0 = Inr True \<and>
      Entity_remove 0 0 store_R = (Inr True, s2) \<and>
      hasFlag s2 1 0 = Inr False) \<and>
   this_id store_X 0 = Some (Some 1) \<and>
   Entity_checkMask store_X 0 0 True = None \<and>
   Entity_checkMask store_X 0 0 False = Some (NotMarked 0 False) \<and>
   hasFlag store_X 1 0 = Inr True \<and>
   Entity_remove 0 0 store_X = (Inl (NotMarked 0 False), store_X)"
proof -
  have m: "Entity_remove 0 0 store_M = (Inl (NotMarked 0 True), store_M)"
    using remove_outcomes [OF store_M_fields(1) store_M_write(1)] store_M_write(2) by simp
  have w: "Entity_remove 0 0 store_W = (Inr False, store_W)"
    using remove_outcomes [OF store_W_fields(1) store_W_fields(2)]
      store_W_fields(3) store_W_fields(5) by simp
  have x: "Entity_remove 0 0 store_X = (Inl (NotMarked 0 False), store_X)"
    using remove_outcomes [OF store_X_fields(1) store_X_fields(2)]
      store_X_fields(3) store_X_fields(4) store_X_fields(5) by (simp add: ref_schema_def)
  from remove_outcomes [OF store_R_fields(1) store_R_fields(2)]
    store_R_fields(3) store_R_fields(4) store_R_fields(5)
  obtain s1 s2 where
    "Entity_deindexOutboundRefs 0 0 store_R = (Inr (), s1)"
    "\<forall>f \<in> set (ctrl_fields \<lparr>flagOffset = 0, flagMask = 1, ctrl_fields = ref_schema 0\<rparr>).
        type f = T_ref \<longrightarrow> storage s1 (0, Some 1, name f) = Some JNull"
    "hasFlag s1 1 0 = Inr True"
    "Entity_remove 0 0 store_R = (Inr True, s2)"
    "hasFlag s2 1 0 = Inr False"
    by blast
  moreover from this(2) have "storage s1 (0, Some 1, ''target'') = Some JNull"
    by (simp add: ref_schema_def)
  ultimately have r: "\<exists>s1 s2. Entity_deindexOutboundRefs 0 0 store_R = (Inr (), s1) \<and>
      storage s1 (0, Some 1, ''target'') = Some JNull \<and>
      hasFlag s1 1 0 = Inr True \<and>
      Entity_remove 0 0 store_R = (Inr True, s2) \<and>
      hasFlag s2 1 0 = Inr False"
    by blast
  show ?thesis
    using m w x r store_M_fields store_M_write store_W_fields store_X_fields store_R_fields
    by simp
qed

subsection \<open>Reuse of slots\<close>

lemma isAllocated_from_iff:
  "isAllocated_from entities base off k \<longleftrightarrow> (\<exists>j < k. ta_get entities (base + off + j) \<noteq> Some 0)"
proof (induction k arbitrary: off)
  case 0
  show ?case by simp
next
  case (Suc k)
  show ?case
    by (simp add: Suc.IH Ex_less_Suc2 add.assoc del: ex_simps)
qed

lemma not_isAllocated_iff:
  "\<not> isAllocated s i entities \<longleftrightarrow> (\<forall>off < stride s. ta_get entities (i * stride s + off) = Some 0)"
  by (simp add: isAllocated_def isAllocated_from_iff)

lemma handles_only_pool: "handles_only s s' \<Longrightarrow> previous s' = previous s \<and> stride s' = stride s"
  by (simp add: handles_only_def)

lemma exec_keeps_previous:
  assumes "pool_ok s" and "x \<noteq> Step" and "exec x s = Some (out, s1)"
  shows "previous s1 = previous s \<and> stride s1 = stride s \<and>
         (\<forall>e i. out = Created e (Some i) \<longrightarrow> free_slot s i)"
proof (cases x)
  case (Create ic)
  with assms(3) obtain r s2 where c0: "createEntity ic s = Some (r, s2)"
    and oc: "outcome_of (\<lambda>e s'. Created e (slot_of s' e)) (r, s2) = (out, s1)"
    by auto
  then have c: "createEntity ic s = Some (r, s1)"
    and out: "out = (case r of Inl err \<Rightarrow> Failed err | Inr e \<Rightarrow> Created e (slot_of s1 e))"
    by (auto simp add: outcome_of_def split: sum.splits)
  from createEntity_ok [OF assms(1) c] out show ?thesis
    by (auto simp add: slot_of_def split: sum.splits)
next
  case (Add e t vals)
  with assms(3) obtain r where "Entity_add e t vals s = (r, s1)" and "(\<exists>err. out = Failed err) \<or> out = Done"
    by (auto simp add: outcome_of_def split: sum.splits prod.splits)
  then show ?thesis
    by (auto dest!: Entity_add_frame simp add: flags_only_def)
next
  case (Remove e t)
  with assms(3) obtain r where "Entity_remove e t s = (r, s1)" and "(\<exists>err. out = Failed err) \<or> (\<exists>b. out = Removed b)"
    by (auto simp add: outcome_of_def split: sum.splits prod.splits)
  then show ?thesis
    by (auto dest!: Entity_remove_frame simp add: flags_only_def)
next
  case (Write e t)
  with assms(3) obtain r where "Entity_write e t s = (r, s1)" and "(\<exists>err. out = Failed err) \<or> out = Done"
    by (auto simp add: outcome_of_def split: sum.splits prod.splits)
  then show ?thesis
    by (auto dest!: Entity_write_frame simp add: flags_only_def)
next
  case (Delete e)
  with assms(3) obtain r where "Entity_delete e s = (r, s1)" and "(\<exists>err. out = Failed err) \<or> out = Done"
    by (auto simp add: outcome_of_def split: sum.splits prod.splits)
  then show ?thesis
    by (auto dest!: Entity_delete_frame simp add: flags_only_def)
next
  case (Bind i)
  from bind_ok [OF assms(1), of "Some i"] obtain e s' where
    b: "bind (Some i) s = (Inr e, s')" "handles_only s s'"
    by blast
  with Bind assms(3) show ?thesis
    by (auto simp add: outcome_of_def handles_only_def)
next
  case Flush
  with assms show ?thesis by (auto simp add: flush_def)
next
  case (SetMasks rw)
  with assms show ?thesis by auto
next
  case Step
  with assms(2) show ?thesis by simp
qed

lemma run_keeps_previous:
  assumes "pool_ok s" and "Step \<notin> set ops" and "run ops s = Some (outs, s')"
    and "isAllocated s i (previous s)"
  shows "\<forall>e. Created e (Some i) \<notin> set outs"
  using assms
proof (induction ops arbitrary: s outs)
  case Nil
  then show ?case by simp
next
  case (Cons x xs)
  from Cons.prems(3) obtain out s1 outs1 where
    x: "exec x s = Some (out, s1)" and r: "run xs s1 = Some (outs1, s')" and o: "outs = out # outs1"
    by (auto split: option.splits prod.splits)
  from Cons.prems(2) have ns: "x \<noteq> Step" "Step \<notin> set xs" by auto
  from exec_keeps_previous [OF Cons.prems(1) ns(1) x]
  have k: "previous s1 = previous s" "stride s1 = stride s"
    "\<forall>e i. out = Created e (Some i) \<longrightarrow> free_slot s i"
    by auto
  have p1: "pool_ok s1" using exec_keeps_pool [OF Cons.prems(1) x] by simp
  have a1: "isAllocated s1 i (previous s1)"
    using Cons.prems(4) k by (simp add: isAllocated_def)
  from Cons.IH [OF p1 ns(2) r a1] have "\<forall>e. Created e (Some i) \<notin> set outs1" .
  moreover have "\<forall>e. out \<noteq> Created e (Some i)"
    using k(3) Cons.prems(4) by (auto simp add: free_slot_def)
  ultimately show ?case using o by auto
qed

text \<open>
  C2, as amended.  Every slot that \<open>createEntity\<close> returns has, at the call, all its flag
  words zero in the current and in the previous buffer.  Consequently a slot that is
  allocated in the previous buffer, that is one that held a component when \<open>step()\<close>
  last ran, is returned by no \<open>createEntity\<close> of a run of calls without \<open>step()\<close>,
  whatever the run removes.
\<close>

theorem createEntity_takes_free_slot:
  assumes "pool_ok s"
  shows "(\<forall>ic e s'. createEntity ic s = Some (Inr e, s') \<longrightarrow>
            (\<exists>i. slot_of s' e = Some i \<and>
                 (\<forall>off < stride s. ta_get (current s) (i * stride s + off) = Some 0 \<and>
                                    ta_get (previous s) (i * stride s + off) = Some 0))) \<and>
         (\<forall>ops outs s' i e.
            Step \<notin> set ops \<and> isAllocated s i (previous s) \<and> run ops s = Some (outs, s')
            \<longrightarrow> Created e (Some i) \<notin> set outs)"
proof (intro conjI allI impI)
  fix ic e s'
  assume "createEntity ic s = Some (Inr e, s')"
  from createEntity_ok [OF assms this] obtain i where
    "this_id s' e = Some (Some i)" "free_slot s i" by blast
  then have "slot_of s' e = Some i \<and>
      (\<forall>off < stride s. ta_get (current s) (i * stride s + off) = Some 0 \<and>
                         ta_get (previous s) (i * stride s + off) = Some 0)"
    by (simp add: slot_of_def free_slot_def not_isAllocated_iff)
  then show "\<exists>i. slot_of s' e = Some i \<and>
      (\<forall>off < stride s. ta_get (current s) (i * stride s + off) = Some 0 \<and>
                         ta_get (previous s) (i * stride s + off) = Some 0)"
    by blast
next
  fix ops outs s' i e
  assume "Step \<notin> set ops \<and> isAllocated s i (previous s) \<and> run ops s = Some (outs, s')"
  with run_keeps_previous [OF assms, of ops outs s' i]
  show "Created e (Some i) \<notin> set outs" by blast
qed

text \<open>
  C2 as stated fails: slot 1 is created with a component, the component is removed, so
  that the slot becomes unallocated in both buffers, and the next \<open>createEntity\<close> returns
  slot 1 again; no \<open>step()\<close> lies between.
\<close>

theorem slot_reused_without_step:
  "outcomes (run_new 1 [0] no_fields [Create [AType 0], Remove 0 0, Create []])
     = Some [Created 0 (Some 1), Removed True, Created 0 (Some 1)]"
  by (simp add: model_defs no_fields_def isAllocated_from_numeral replicate_numeral_unfold)

lemma store_P_fields:
  "pool_ok store_P" "isAllocated store_P 1 (previous store_P)"
  "current store_P = [0, 1, 0]" "previous store_P = [0, 1, 0]"
  "outcomes (run [Remove 0 0, Create [AType 0], Create [AType 0]] store_P)
     = Some [Removed True, Created 0 (Some 2), Failed (MaxEntitiesReached 2)]"
  by (simp_all add: store_P_def model_defs no_fields_def pool_ok_def step_def ta_set_def ta_fill_def
      isAllocated_from_numeral replicate_numeral_unfold)

theorem createEntity_takes_free_slot_witness:
  "pool_ok store_P \<and> isAllocated store_P 1 (previous store_P) \<and>
   Step \<notin> set [Remove 0 0, Create [AType 0], Create [AType 0]] \<and>
   outcomes (run [Remove 0 0, Create [AType 0], Create [AType 0]] store_P)
     = Some [Removed True, Created 0 (Some 2), Failed (MaxEntitiesReached 2)] \<and>
   Created 0 (Some 1)
     \<notin> set (fst (the (run [Remove 0 0, Create [AType 0], Create [AType 0]] store_P)))"
proof -
  have ns: "Step \<notin> set [Remove 0 0, Create [AType 0], Create [AType 0]]" by simp
  from store_P_fields(5) obtain outs s' where
    r: "run [Remove 0 0, Create [AType 0], Create [AType 0]] store_P = Some (outs, s')"
    by (auto simp add: outcomes_def)
  with ns store_P_fields(2)
  have "Step \<notin> set [Remove 0 0, Create [AType 0], Create [AType 0]] \<and>
      isAllocated store_P 1 (previous store_P) \<and>
      run [Remove 0 0, Create [AType 0], Create [AType 0]] store_P = Some (outs, s')"
    by simp
  then have "Created 0 (Some 1) \<notin> set outs"
    by (rule createEntity_takes_free_slot [OF store_P_fields(1), THEN conjunct2, rule_format])
  with r have "Created 0 (Some 1)
     \<notin> set (fst (the (run [Remove 0 0, Create [AType 0], Create [AType 0]] store_P)))"
    by simp
  with ns store_P_fields show ?thesis by blast
qed

subsection \<open>Capacity\<close>

lemma grows_refl: "grows s s"
  by (simp add: grows_def)

lemma grows_trans: "grows s s1 \<Longrightarrow> grows s1 s2 \<Longrightarrow> grows s s2"
  by (simp add: grows_def)

lemma grows_allocated:
  assumes "grows s s'" and "isAllocated s k (current s)"
  shows "isAllocated s' k (current s')"
proof -
  from assms(2) obtain j where j: "j < stride s" "ta_get (current s) (k * stride s + j) \<noteq> Some 0"
    by (auto simp add: isAllocated_def isAllocated_from_iff)
  have "ta_get (current s') (k * stride s + j) \<noteq> Some 0"
    using j(2) assms(1) by (auto simp add: ta_get_def grows_def split: if_splits)
  with j(1) assms(1) show ?thesis
    by (auto simp add: isAllocated_def isAllocated_from_iff grows_def)
qed

lemma or_nonzero: "(w :: u32) \<noteq> 0 \<Longrightarrow> w OR m \<noteq> 0"
  by (metis or_eq_0_iff)

lemma ta_put_or_grows:
  assumes "k < length buf" and "buf ! k \<noteq> 0"
  shows "ta_put buf j (elem_bits (ta_get buf j) OR m) ! k \<noteq> 0"
proof (cases "j = k")
  case True
  with assms show ?thesis
    by (simp add: ta_put_def ta_get_def elem_bits_def or_nonzero)
next
  case False
  with assms show ?thesis
    by (simp add: ta_put_def)
qed

lemma ta_put_length: "length (ta_put buf j w) = length buf"
  by (simp add: ta_put_def)

lemma setFlag_grows: "setFlag i t s = (r, s') \<Longrightarrow> grows s s'"
  by (auto simp add: setFlag_def grows_def Let_def ta_put_length ta_put_or_grows
      split: option.splits)

lemma setFlag_of_grows: "setFlag_of i t s = (r, s') \<Longrightarrow> grows s s'"
  by (auto simp add: setFlag_of_def grows_refl split: option.splits dest: setFlag_grows)

lemma initComponent_grows: "initComponent t i vals s = (r, s') \<Longrightarrow> grows s s'"
  by (auto simp add: initComponent_def grows_def split: option.splits)

lemma Entity_add_grows: "Entity_add e t vals s = (r, s') \<Longrightarrow> grows s s'"
  by (auto simp add: Entity_add_def grows_refl
      split: sum.splits option.splits prod.splits bool.splits
      dest: setFlag_of_grows initComponent_grows intro: grows_trans)

lemma add_initial_grows:
  assumes "add_initial e ic s = (r, s')"
  shows "grows s s'"
proof (rule add_initial_preserves [where P = "grows s", OF _ grows_refl assms])
  fix e' t vals s1 r1 s2
  assume "grows s s1" and "Entity_add e' t vals s1 = (r1, s2)"
  then show "grows s s2" by (blast intro: grows_trans dest: Entity_add_grows)
qed

lemma Entity_checkMask_not_capacity:
  "Entity_checkMask s e t w = Some err \<Longrightarrow> err \<noteq> MaxEntitiesReached n"
  by (auto simp add: Entity_checkMask_def maskHasFlag_def
      split: option.splits sum.splits bool.splits)

lemma Entity_has_not_capacity: "not_capacity (Entity_has s e t)"
  by (auto simp add: not_capacity_def Entity_has_def hasFlag_of_def hasFlag_def
      split: option.splits dest: Entity_checkMask_not_capacity)

lemma Entity_add_not_capacity: "not_capacity (fst (Entity_add e t vals s))"
  using Entity_has_not_capacity [of s e t]
  by (auto simp add: not_capacity_def Entity_add_def setFlag_of_def setFlag_def initComponent_def
      Let_def
      split: option.splits sum.splits bool.splits prod.splits
      dest: Entity_checkMask_not_capacity)

lemma add_initial_not_capacity: "not_capacity (fst (add_initial e ic s))"
proof (induction e ic s rule: add_initial.induct)
  case (1 e s)
  show ?case by (simp add: not_capacity_def)
next
  case (2 e v rest s)
  show ?case by (simp add: not_capacity_def)
next
  case (3 e t s)
  show ?case by (simp add: Entity_add_not_capacity)
next
  case (4 e t t' rest s)
  obtain a s1 where ea: "Entity_add e t None s = (a, s1)" by (cases "Entity_add e t None s")
  show ?case
  proof (cases a)
    case (Inl err)
    with ea Entity_add_not_capacity [of e t None s] show ?thesis by simp
  next
    case (Inr u)
    with ea "4.IH" show ?thesis by simp
  qed
next
  case (5 e t v rest s)
  obtain a s1 where ea: "Entity_add e t (Some v) s = (a, s1)"
    by (cases "Entity_add e t (Some v) s")
  show ?case
  proof (cases a)
    case (Inl err)
    with ea Entity_add_not_capacity [of e t "Some v" s] show ?thesis by simp
  next
    case (Inr u)
    with ea "5.IH" show ?thesis by simp
  qed
qed

lemma allocate_not_capacity: "not_capacity (fst (allocate ic j s))"
proof -
  obtain r1 s1 where b: "bind (Some j) s = (r1, s1)" by (cases "bind (Some j) s")
  show ?thesis
  proof (cases r1)
    case (Inl err)
    with b have "err = TypeError"
      by (auto simp add: bind_def split: prod.splits option.splits)
    with b Inl show ?thesis by (simp add: allocate_def not_capacity_def)
  next
    case (Inr e)
    obtain a s2 where ai: "add_initial e ic s1 = (a, s2)" by (cases "add_initial e ic s1")
    with add_initial_not_capacity [of e ic s1] have "not_capacity a" by simp
    with b Inr ai show ?thesis
      by (cases a) (simp_all add: allocate_def not_capacity_def)
  qed
qed

lemma setFlag_allocates:
  assumes "views_ok s" and "ctrls_ok s" and "i < maxNum s"
    and "map_of (controllers s) t = Some ctrl" and "setFlag i t s = (r, s')"
  shows "isAllocated s' i (current s')"
proof -
  let ?k = "i * stride s + flagOffset ctrl"
  have off: "flagOffset ctrl < stride s" and m: "flagMask ctrl \<noteq> 0"
    using assms(2,4) by (auto simp add: ctrls_ok_def)
  have "i * stride s + stride s \<le> maxNum s * stride s"
    using assms(3) by (metis Suc_leI mult_Suc mult_le_mono1 add.commute)
  with off have inr: "?k < length (current s)"
    using assms(1) by (simp add: views_ok_def)
  have s': "current s' = (current s)[?k := current s ! ?k OR flagMask ctrl]" "stride s' = stride s"
    using assms(4,5) inr by (auto simp add: setFlag_def Let_def ta_put_def ta_get_def elem_bits_def)
  have "current s ! ?k OR flagMask ctrl \<noteq> 0"
    using m by (metis or_eq_0_iff)
  then have "ta_get (current s') ?k \<noteq> Some 0"
    using inr by (simp add: s' ta_get_def)
  with off show ?thesis
    by (auto simp add: isAllocated_def isAllocated_from_iff s')
qed

lemma Entity_add_allocates:
  assumes "views_ok s" and "ctrls_ok s" and "i < maxNum s"
    and "this_id s e = Some (Some i)" and "Entity_add e t vals s = (Inr u, s')"
  shows "isAllocated s' i (current s')"
proof -
  from assms(5) obtain s1 r1 where sf: "setFlag i t s = (r1, s1)"
    and ic: "initComponent t (Some i) vals s1 = (Inr u, s')"
    using assms(4)
    by (auto simp add: Entity_add_def setFlag_of_def
        split: option.splits sum.splits bool.splits prod.splits)
  from sf obtain ctrl where c: "map_of (controllers s) t = Some ctrl"
    using ic by (cases "map_of (controllers s) t") (auto simp add: setFlag_def initComponent_def)
  from setFlag_allocates [OF assms(1,2,3) c sf] have "isAllocated s1 i (current s1)" .
  with initComponent_grows [OF ic] show ?thesis by (rule grows_allocated)
qed

lemma flags_only_views:
  "flags_only s s' \<Longrightarrow> views_ok s' = views_ok s"
  "flags_only s s' \<Longrightarrow> ctrls_ok s' = ctrls_ok s"
  by (simp_all add: flags_only_def views_ok_def ctrls_ok_def)

lemma add_initial_allocates:
  assumes "views_ok s" and "ctrls_ok s" and "i < maxNum s"
    and "this_id s e = Some (Some i)" and "ic \<noteq> []" and "add_initial e ic s = (Inr u, s')"
  shows "isAllocated s' i (current s')"
proof (cases "(e, ic, s)" rule: add_initial.cases)
  case (1 e0 s0)
  with assms(5) show ?thesis by simp
next
  case (2 e0 v rest s0)
  with assms(6) show ?thesis by simp
next
  case (3 e0 t s0)
  with assms(6) have "Entity_add e t None s = (Inr u, s')" by simp
  from Entity_add_allocates [OF assms(1,2,3,4) this] show ?thesis .
next
  case (4 e0 t t' rest s0)
  with assms(6) obtain u1 s1 where ea: "Entity_add e t None s = (Inr u1, s1)"
    and rest: "add_initial e (AType t' # rest) s1 = (Inr u, s')"
    by (auto split: sum.splits prod.splits)
  from Entity_add_allocates [OF assms(1,2,3,4) ea] have "isAllocated s1 i (current s1)" .
  with add_initial_grows [OF rest] show ?thesis by (rule grows_allocated)
next
  case (5 e0 t v rest s0)
  with assms(6) obtain u1 s1 where ea: "Entity_add e t (Some v) s = (Inr u1, s1)"
    and rest: "add_initial e rest s1 = (Inr u, s')"
    by (auto split: sum.splits prod.splits)
  from Entity_add_allocates [OF assms(1,2,3,4) ea] have "isAllocated s1 i (current s1)" .
  with add_initial_grows [OF rest] show ?thesis by (rule grows_allocated)
qed

lemma handles_only_views:
  "handles_only s s' \<Longrightarrow> views_ok s' = views_ok s"
  "handles_only s s' \<Longrightarrow> ctrls_ok s' = ctrls_ok s"
  "handles_only s s' \<Longrightarrow> cursor_ok s' = cursor_ok s"
  "handles_only s s' \<Longrightarrow> isAllocated s' k (current s') = isAllocated s k (current s)"
  by (simp_all add: handles_only_def views_ok_def ctrls_ok_def cursor_ok_def isAllocated_def)

lemma nextId_update_views:
  "views_ok (s\<lparr>nextId := n\<rparr>) = views_ok s"
  "ctrls_ok (s\<lparr>nextId := n\<rparr>) = ctrls_ok s"
  "isAllocated (s\<lparr>nextId := n\<rparr>) k buf = isAllocated s k buf"
  by (simp_all add: views_ok_def ctrls_ok_def isAllocated_def)

lemma next_slot_in_range:
  assumes "1 \<le> j" and "j < maxNum s"
  shows "1 \<le> next_slot s j \<and> next_slot s j < maxNum s"
  using assms by (auto simp add: next_slot_def Let_def)

lemma create_step:
  assumes ok: "store_ok s" and c: "createEntity ic s = Some (Inr e, s')" and ne: "ic \<noteq> []"
  shows "store_ok s' \<and> maxNum s' = maxNum s \<and>
         (\<exists>j. 1 \<le> j \<and> j < maxNum s \<and> \<not> isAllocated s j (current s)
               \<and> isAllocated s' j (current s')) \<and>
         (\<forall>k. isAllocated s k (current s) \<longrightarrow> isAllocated s' k (current s'))"
proof -
  from ok have v: "views_ok s" and cu: "cursor_ok s" and ct: "ctrls_ok s" and po: "pool_ok s"
    by (simp_all add: store_ok_def)
  from createEntity_scan [OF cu, of ic] c have "scan_result ic s (Inr e, s')" by auto
  then obtain j where j: "1 \<le> j" "j < maxNum s" "free_slot s j"
    and al: "allocate ic j s = (Inr e, s')"
    by (auto simp add: scan_result_def)
  from bind_ok [OF po, of "Some j"] obtain e0 s1 where
    b: "bind (Some j) s = (Inr e0, s1)" "pool_ok s1" "this_id s1 e0 = Some (Some j)"
       "handles_only s s1"
    by blast
  from al b(1) obtain u s2 where ai: "add_initial e0 ic s1 = (Inr u, s2)"
    and s': "s' = s2\<lparr>nextId := next_slot s2 j\<rparr>"
    by (auto simp add: allocate_def split: sum.splits prod.splits)
  have f: "flags_only s1 s2" using ai by (rule add_initial_frame)
  have g: "grows s1 s2" using ai by (rule add_initial_grows)
  have v1: "views_ok s1" "ctrls_ok s1" using v ct b(4) by (simp_all add: handles_only_views)
  have m1: "maxNum s1 = maxNum s" "maxNum s2 = maxNum s"
    using b(4) f by (simp_all add: handles_only_def flags_only_def)
  have a2: "isAllocated s2 j (current s2)"
    using add_initial_allocates [OF v1 _ b(3) ne ai] j(2) m1 by simp
  have inv2: "views_ok s2" "ctrls_ok s2" "pool_ok s2"
    using v1 b(2) f by (simp_all add: flags_only_views flags_only_pool)
  have "cursor_ok s'"
    using next_slot_in_range [of j s2] j m1 by (simp add: s' cursor_ok_def)
  then have ok': "store_ok s'"
    using inv2 by (simp add: store_ok_def s' nextId_update_views nextId_update_keeps)
  have mono: "\<forall>k. isAllocated s k (current s) \<longrightarrow> isAllocated s' k (current s')"
  proof (intro allI impI)
    fix k assume "isAllocated s k (current s)"
    then have "isAllocated s1 k (current s1)" using b(4) by (simp add: handles_only_views)
    with g have "isAllocated s2 k (current s2)" by (rule grows_allocated)
    then show "isAllocated s' k (current s')" by (simp add: s' nextId_update_views)
  qed
  have "\<not> isAllocated s j (current s)" using j(3) by (simp add: free_slot_def)
  moreover have "isAllocated s' j (current s')" using a2 by (simp add: s' nextId_update_views)
  ultimately have "\<exists>j. 1 \<le> j \<and> j < maxNum s \<and> \<not> isAllocated s j (current s)
               \<and> isAllocated s' j (current s')"
    using j by blast
  moreover have "maxNum s' = maxNum s" using m1 by (simp add: s')
  ultimately show ?thesis using ok' mono by blast
qed

lemma allocated_slots_finite: "finite (allocated_slots s)"
  by (simp add: allocated_slots_def)

lemma allocated_slots_bound: "allocated_slots s \<subseteq> {1..<maxNum s}"
  by (auto simp add: allocated_slots_def)

lemma create_step_card:
  assumes "store_ok s" and "createEntity ic s = Some (Inr e, s')" and "ic \<noteq> []"
  shows "store_ok s' \<and> maxNum s' = maxNum s \<and>
         card (allocated_slots s) < card (allocated_slots s')"
proof -
  from create_step [OF assms] obtain j where
    ok': "store_ok s'" and m: "maxNum s' = maxNum s"
    and j: "1 \<le> j" "j < maxNum s" "\<not> isAllocated s j (current s)" "isAllocated s' j (current s')"
    and mono: "\<forall>k. isAllocated s k (current s) \<longrightarrow> isAllocated s' k (current s')"
    by blast
  have "allocated_slots s \<subseteq> allocated_slots s'"
    using mono m by (auto simp add: allocated_slots_def)
  moreover have "j \<in> allocated_slots s'" "j \<notin> allocated_slots s"
    using j m by (auto simp add: allocated_slots_def)
  ultimately have "allocated_slots s \<subset> allocated_slots s'" by blast
  then have "card (allocated_slots s) < card (allocated_slots s')"
    by (rule psubset_card_mono [OF allocated_slots_finite])
  with ok' m show ?thesis by simp
qed

lemma full_store_fails:
  assumes "store_ok s" and "card (allocated_slots s) \<ge> maxNum s - 1"
  shows "createEntity ic s = Some (Inl (MaxEntitiesReached (maxNum s - 1)), s)"
proof -
  have "card {1..<maxNum s} = maxNum s - 1" by simp
  with assms(2) have "card {1..<maxNum s} \<le> card (allocated_slots s)" by simp
  with allocated_slots_bound [of s] have eq: "allocated_slots s = {1..<maxNum s}"
    by (intro card_seteq) simp_all
  have all: "\<forall>j. 1 \<le> j \<and> j < maxNum s \<longrightarrow> \<not> free_slot s j"
  proof (intro allI impI)
    fix j assume "1 \<le> j \<and> j < maxNum s"
    then have "j \<in> {1..<maxNum s}" by simp
    with eq have "j \<in> allocated_slots s" by simp
    then show "\<not> free_slot s j" by (simp add: allocated_slots_def free_slot_def)
  qed
  from assms(1) have "cursor_ok s" by (simp add: store_ok_def)
  from createEntity_scan [OF this, of ic] obtain r where
    r: "createEntity ic s = Some r" "scan_result ic s r" by blast
  have "r = (Inl (MaxEntitiesReached (maxNum s - 1)), s)"
    using r(2) all unfolding scan_result_def by blast
  with r(1) show ?thesis by simp
qed

text \<open>
  C7, as amended.  With the cursor within the slots, \<open>createEntity\<close> returns, and its
  result is the capacity error exactly when every slot from 1 to \<open>maxEntities\<close> is
  allocated in the current or in the previous buffer.  In particular, in a store of four
  slots, after four \<open>createEntity\<close> calls that succeeded and each attached at least one
  component, with nothing else in between, the fifth call fails with the capacity
  error.
\<close>

theorem capacity_error_iff_no_free_slot:
  assumes "cursor_ok s"
  shows "(\<exists>r. createEntity ic s = Some r \<and>
            (fst r = Inl (MaxEntitiesReached (maxNum s - 1)) \<longleftrightarrow>
             (\<forall>i. 1 \<le> i \<and> i < maxNum s \<longrightarrow>
                  isAllocated s i (current s) \<or> isAllocated s i (previous s)))) \<and>
         (views_ok s \<and> ctrls_ok s \<and> pool_ok s \<and> maxNum s = 5 \<and>
          a1 \<noteq> [] \<and> a2 \<noteq> [] \<and> a3 \<noteq> [] \<and> a4 \<noteq> [] \<and>
          createEntity a1 s = Some (Inr e1, s1) \<and> createEntity a2 s1 = Some (Inr e2, s2) \<and>
          createEntity a3 s2 = Some (Inr e3, s3) \<and> createEntity a4 s3 = Some (Inr e4, s4)
          \<longrightarrow> createEntity a5 s4 = Some (Inl (MaxEntitiesReached 4), s4))"
proof (intro conjI impI)
  from createEntity_scan [OF assms, of ic] obtain r where
    r: "createEntity ic s = Some r" "scan_result ic s r" by blast
  have "fst r = Inl (MaxEntitiesReached (maxNum s - 1)) \<longleftrightarrow>
      (\<forall>i. 1 \<le> i \<and> i < maxNum s \<longrightarrow> \<not> free_slot s i)"
  proof
    assume cap: "fst r = Inl (MaxEntitiesReached (maxNum s - 1))"
    have "\<not> (\<exists>j. r = allocate ic j s)"
    proof
      assume "\<exists>j. r = allocate ic j s"
      then obtain j where "r = allocate ic j s" by blast
      with allocate_not_capacity [of ic j s] cap show False
        by (simp add: not_capacity_def)
    qed
    with r(2) show "\<forall>i. 1 \<le> i \<and> i < maxNum s \<longrightarrow> \<not> free_slot s i"
      unfolding scan_result_def by blast
  next
    assume "\<forall>i. 1 \<le> i \<and> i < maxNum s \<longrightarrow> \<not> free_slot s i"
    with r(2) have "r = (Inl (MaxEntitiesReached (maxNum s - 1)), s)"
      unfolding scan_result_def by blast
    then show "fst r = Inl (MaxEntitiesReached (maxNum s - 1))" by simp
  qed
  then have "fst r = Inl (MaxEntitiesReached (maxNum s - 1)) \<longleftrightarrow>
      (\<forall>i. 1 \<le> i \<and> i < maxNum s \<longrightarrow>
           isAllocated s i (current s) \<or> isAllocated s i (previous s))"
    by (simp add: free_slot_def)
  with r(1) show "\<exists>r. createEntity ic s = Some r \<and>
            (fst r = Inl (MaxEntitiesReached (maxNum s - 1)) \<longleftrightarrow>
             (\<forall>i. 1 \<le> i \<and> i < maxNum s \<longrightarrow>
                  isAllocated s i (current s) \<or> isAllocated s i (previous s)))"
    by blast
next
  assume h: "views_ok s \<and> ctrls_ok s \<and> pool_ok s \<and> maxNum s = 5 \<and>
          a1 \<noteq> [] \<and> a2 \<noteq> [] \<and> a3 \<noteq> [] \<and> a4 \<noteq> [] \<and>
          createEntity a1 s = Some (Inr e1, s1) \<and> createEntity a2 s1 = Some (Inr e2, s2) \<and>
          createEntity a3 s2 = Some (Inr e3, s3) \<and> createEntity a4 s3 = Some (Inr e4, s4)"
  then have ok0: "store_ok s" using assms by (simp add: store_ok_def)
  from h have c1: "createEntity a1 s = Some (Inr e1, s1)" and n1: "a1 \<noteq> []" by simp_all
  from h have c2: "createEntity a2 s1 = Some (Inr e2, s2)" and n2: "a2 \<noteq> []" by simp_all
  from h have c3: "createEntity a3 s2 = Some (Inr e3, s3)" and n3: "a3 \<noteq> []" by simp_all
  from h have c4: "createEntity a4 s3 = Some (Inr e4, s4)" and n4: "a4 \<noteq> []" by simp_all
  from create_step_card [OF ok0 c1 n1] have k1: "store_ok s1" "maxNum s1 = maxNum s"
    "card (allocated_slots s) < card (allocated_slots s1)" by simp_all
  from create_step_card [OF k1(1) c2 n2] have k2: "store_ok s2" "maxNum s2 = maxNum s1"
    "card (allocated_slots s1) < card (allocated_slots s2)" by simp_all
  from create_step_card [OF k2(1) c3 n3] have k3: "store_ok s3" "maxNum s3 = maxNum s2"
    "card (allocated_slots s2) < card (allocated_slots s3)" by simp_all
  from create_step_card [OF k3(1) c4 n4] have k4: "store_ok s4" "maxNum s4 = maxNum s3"
    "card (allocated_slots s3) < card (allocated_slots s4)" by simp_all
  from h k1(2) k2(2) k3(2) k4(2) have m4: "maxNum s4 = 5" by simp
  have "4 \<le> card (allocated_slots s4)"
    using k1(3) k2(3) k3(3) k4(3) by arith
  with m4 have "maxNum s4 - 1 \<le> card (allocated_slots s4)" by simp
  from full_store_fails [OF k4(1) this, of a5] m4
  show "createEntity a5 s4 = Some (Inl (MaxEntitiesReached 4), s4)" by simp
qed

text \<open>
  C7 as stated fails: in a new store of four slots, four \<open>createEntity\<close> calls that
  attach no component leave every slot unallocated, and the fifth call succeeds, with
  slot 1 again.
\<close>

theorem fifth_entity_without_components:
  "outcomes (run_new 4 [0] no_fields [Create [], Create [], Create [], Create [], Create []])
     = Some [Created 0 (Some 1), Created 0 (Some 2), Created 0 (Some 3), Created 0 (Some 4),
             Created 0 (Some 1)]"
  by (simp add: model_defs no_fields_def isAllocated_from_numeral replicate_numeral_unfold)

lemmas store_4_defs = store_4_def store_4a_def store_4b_def store_4c_def store_4d_def

lemma store_4_ok:
  "cursor_ok store_4" "views_ok store_4" "ctrls_ok store_4" "pool_ok store_4"
  "maxNum store_4 = 5"
  by (simp_all add: store_4_def model_defs no_fields_def cursor_ok_def views_ok_def
      ctrls_ok_def pool_ok_def)

lemma store_4_creates:
  "createEntity [AType 0] store_4 = Some (Inr 0, store_4a)"
  "createEntity [AType 0] store_4a = Some (Inr 0, store_4b)"
  "createEntity [AType 0] store_4b = Some (Inr 0, store_4c)"
  "createEntity [AType 0] store_4c = Some (Inr 0, store_4d)"
  by (simp_all add: store_4_defs model_defs no_fields_def isAllocated_from_numeral
      replicate_numeral_unfold)

theorem capacity_error_iff_no_free_slot_witness:
  "cursor_ok store_4 \<and> views_ok store_4 \<and> ctrls_ok store_4 \<and> pool_ok store_4 \<and>
   maxNum store_4 = 5 \<and>
   createEntity [AType 0] store_4 = Some (Inr 0, store_4a) \<and>
   createEntity [AType 0] store_4a = Some (Inr 0, store_4b) \<and>
   createEntity [AType 0] store_4b = Some (Inr 0, store_4c) \<and>
   createEntity [AType 0] store_4c = Some (Inr 0, store_4d) \<and>
   createEntity [AType 0] store_4d = Some (Inl (MaxEntitiesReached 4), store_4d)"
proof -
  have "views_ok store_4 \<and> ctrls_ok store_4 \<and> pool_ok store_4 \<and> maxNum store_4 = 5 \<and>
      [AType 0] \<noteq> [] \<and> [AType 0] \<noteq> [] \<and> [AType 0] \<noteq> [] \<and> [AType 0] \<noteq> [] \<and>
      createEntity [AType 0] store_4 = Some (Inr 0, store_4a) \<and>
      createEntity [AType 0] store_4a = Some (Inr 0, store_4b) \<and>
      createEntity [AType 0] store_4b = Some (Inr 0, store_4c) \<and>
      createEntity [AType 0] store_4c = Some (Inr 0, store_4d)"
    using store_4_ok store_4_creates by simp
  then have "createEntity [AType 0] store_4d = Some (Inl (MaxEntitiesReached 4), store_4d)"
    by (rule capacity_error_iff_no_free_slot [OF store_4_ok(1), THEN conjunct2, rule_format])
  with store_4_ok store_4_creates show ?thesis by simp
qed

subsection \<open>The invariants hold in every store that is reached\<close>

lemma Map_set_fresh:
  "k \<notin> fst ` set kvs \<Longrightarrow> Map_set k v kvs = kvs @ [(k, v)]"
  by (induction kvs) auto

lemma add_controllers_distinct:
  assumes "distinct ts" and "set ts \<inter> fst ` set cs = {}"
  shows "add_controllers schema ts k cs
           = cs @ map (\<lambda>(i, t). (t, new_Controller i (schema t))) (enumerate k ts)"
  using assms
proof (induction ts arbitrary: k cs)
  case Nil
  show ?case by simp
next
  case (Cons t ts)
  from Cons.prems have fresh: "t \<notin> fst ` set cs" by auto
  have "set ts \<inter> fst ` set (cs @ [(t, new_Controller k (schema t))]) = {}"
    using Cons.prems by auto
  with Cons.IH [of "cs @ [(t, new_Controller k (schema t))]" "k + 1"] Cons.prems(1)
  show ?case by (simp add: Map_set_fresh [OF fresh])
qed

lemma new_Controller_in_stride:
  assumes "i < n"
  shows "flagOffset (new_Controller i fs) < ceil_div n 32 \<and> flagMask (new_Controller i fs) \<noteq> 0"
proof -
  have "i div 32 < (n + 31) div 32"
    using assms by (simp add: div_less_iff_less_mult less_mult_imp_div_less)
  moreover have "push_bit (i mod 32) (1 :: u32) \<noteq> 0"
  proof
    assume z: "push_bit (i mod 32) (1 :: u32) = 0"
    have "bit (push_bit (i mod 32) (1 :: u32)) (i mod 32)"
      by (simp add: bit_push_bit_iff bit_exp_iff possible_bit_word)
    with z show False by simp
  qed
  ultimately show ?thesis
    by (simp add: new_Controller_def ceil_div_def)
qed

lemma enumerate_bound: "(i, t) \<in> set (enumerate k ts) \<Longrightarrow> k \<le> i \<and> i < k + length ts"
  by (auto simp add: in_set_enumerate_eq)

text \<open>
  The constructor establishes the invariants (the cursor needs at least one slot, the
  controllers distinct component types), and every call of a run keeps them; so a run
  from a new store always returns.
\<close>

lemma new_Entities_ok:
  assumes "new_Entities maxEntities ts schema d = Inr s"
  shows "views_ok s \<and> pool_ok s \<and> maxNum s = maxEntities + 1 \<and> previous s = current s \<and>
         (1 \<le> maxEntities \<longrightarrow> cursor_ok s) \<and> (distinct ts \<longrightarrow> ctrls_ok s)"
proof -
  let ?cs = "add_controllers schema ts 0 []"
  from assms have s: "maxNum s = maxEntities + 1" "stride s = ceil_div (length ?cs) 32"
    "nextId s = 1" "flagSegmentSize s = (maxEntities + 1) * ceil_div (length ?cs) 32 * 4"
    "current s = replicate ((maxEntities + 1) * ceil_div (length ?cs) 32) 0"
    "previous s = replicate ((maxEntities + 1) * ceil_div (length ?cs) 32) 0"
    "mutations s = replicate ((maxEntities + 1) * ceil_div (length ?cs) 32) 0"
    "filtered s = replicate maxEntities 0"
    "pool s = \<lparr>list = map (\<lambda>i. 0 + i) [0..<20], next = 0\<rparr>" "heap s = [] @ replicate 20 blank"
    "controllers s = ?cs"
    by (auto simp add: new_Entities_def new_Pool_def Pool_fill_eq Let_def split: if_splits)
  have v: "views_ok s" by (simp add: views_ok_def s)
  have p: "pool_ok s" by (simp add: pool_ok_def s)
  have c: "1 \<le> maxEntities \<longrightarrow> cursor_ok s" by (simp add: cursor_ok_def s)
  have k: "distinct ts \<longrightarrow> ctrls_ok s"
  proof
    assume dt: "distinct ts"
    then have cs: "?cs = map (\<lambda>(i, t). (t, new_Controller i (schema t))) (enumerate 0 ts)"
      using add_controllers_distinct [of ts "[]" schema 0] by simp
    then have len: "length ?cs = length ts" by simp
    show "ctrls_ok s"
      unfolding ctrls_ok_def
    proof (intro allI impI)
      fix t ctrl
      assume "map_of (controllers s) t = Some ctrl"
      then have "(t, ctrl) \<in> set ?cs" by (simp add: s map_of_SomeD)
      with cs obtain i where i: "(i, t) \<in> set (enumerate 0 ts)"
        and ctrl: "ctrl = new_Controller i (schema t)"
        by auto
      from enumerate_bound [OF i] have "i < length ts" by simp
      from new_Controller_in_stride [OF this, of "schema t"]
      show "flagOffset ctrl < stride s \<and> flagMask ctrl \<noteq> 0"
        by (simp add: ctrl s len)
    qed
  qed
  from v p c k s(1,5,6) show ?thesis by simp
qed

lemma flags_only_store_ok: "flags_only s s' \<Longrightarrow> store_ok s \<Longrightarrow> store_ok s'"
  by (simp add: store_ok_def flags_only_def views_ok_def cursor_ok_def ctrls_ok_def pool_ok_def)

lemma handles_only_store_ok:
  "handles_only s s' \<Longrightarrow> pool_ok s' \<Longrightarrow> store_ok s \<Longrightarrow> store_ok s'"
  by (simp add: store_ok_def handles_only_def views_ok_def cursor_ok_def ctrls_ok_def)

lemma dispatcher_update_store_ok: "store_ok (s\<lparr>dispatcher := d\<rparr>) = store_ok s"
  by (simp add: store_ok_def views_ok_def cursor_ok_def ctrls_ok_def pool_ok_def)

lemma step_store_ok:
  assumes "store_ok s" and "step s = (r, s')"
  shows "store_ok s'"
  using assms
  by (auto simp add: step_def ta_set_def ta_fill_def store_ok_def views_ok_def cursor_ok_def
      ctrls_ok_def pool_ok_def split: option.splits if_splits)

lemma allocate_store_ok:
  assumes ok: "store_ok s" and j: "1 \<le> j" "j < maxNum s" and al: "allocate ic j s = (r, s')"
  shows "store_ok s'"
proof -
  from ok have po: "pool_ok s" by (simp add: store_ok_def)
  from bind_ok [OF po, of "Some j"] obtain e0 s1 where
    b: "bind (Some j) s = (Inr e0, s1)" "pool_ok s1" "handles_only s s1"
    by blast
  have ok1: "store_ok s1" using b(3,2) ok by (rule handles_only_store_ok)
  obtain a s2 where ai: "add_initial e0 ic s1 = (a, s2)" by (cases "add_initial e0 ic s1")
  then have f: "flags_only s1 s2" by (rule add_initial_frame)
  have ok2: "store_ok s2" using f ok1 by (rule flags_only_store_ok)
  have m2: "maxNum s2 = maxNum s"
    using f b(3) by (simp add: flags_only_def handles_only_def)
  show ?thesis
  proof (cases a)
    case (Inl err)
    with al b(1) ai have "s' = s2" by (simp add: allocate_def)
    with ok2 show ?thesis by simp
  next
    case (Inr u)
    with al b(1) ai have s': "s' = s2\<lparr>nextId := next_slot s2 j\<rparr>" by (simp add: allocate_def)
    have "cursor_ok s'"
      using next_slot_in_range [of j s2] j m2 by (simp add: s' cursor_ok_def)
    with ok2 show ?thesis
      by (simp add: store_ok_def s' nextId_update_views nextId_update_keeps)
  qed
qed

lemma createEntity_store_ok:
  assumes "store_ok s"
  shows "\<exists>r s'. createEntity ic s = Some (r, s') \<and> store_ok s'"
proof -
  from assms have "cursor_ok s" by (simp add: store_ok_def)
  from createEntity_scan [OF this, of ic] obtain r where
    r: "createEntity ic s = Some r" "scan_result ic s r" by blast
  from r(2) have "store_ok (snd r)"
    unfolding scan_result_def
  proof
    assume "\<exists>j. 1 \<le> j \<and> j < maxNum s \<and> free_slot s j \<and> r = allocate ic j s"
    then obtain j where "1 \<le> j" "j < maxNum s" "allocate ic j s = (fst r, snd r)" by auto
    with assms show ?thesis by (rule allocate_store_ok)
  next
    assume "(\<forall>j. 1 \<le> j \<and> j < maxNum s \<longrightarrow> \<not> free_slot s j) \<and>
      r = (Inl (MaxEntitiesReached (maxNum s - 1)), s)"
    with assms show ?thesis by simp
  qed
  with r(1) show ?thesis by (metis prod.collapse)
qed

lemma exec_store_ok:
  assumes "store_ok s"
  shows "\<exists>out s1. exec x s = Some (out, s1) \<and> store_ok s1"
proof (cases x)
  case (Create ic)
  from createEntity_store_ok [OF assms, of ic] obtain r s' where
    "createEntity ic s = Some (r, s')" "store_ok s'" by blast
  with Create show ?thesis
    by (cases r) (simp_all add: outcome_of_def)
next
  case (Add e t vals)
  obtain r s' where a: "Entity_add e t vals s = (r, s')" by (cases "Entity_add e t vals s")
  from flags_only_store_ok [OF Entity_add_frame [OF a] assms] a Add show ?thesis
    by (cases r) (simp_all add: outcome_of_def)
next
  case (Remove e t)
  obtain r s' where a: "Entity_remove e t s = (r, s')" by (cases "Entity_remove e t s")
  from flags_only_store_ok [OF Entity_remove_frame [OF a] assms] a Remove show ?thesis
    by (cases r) (simp_all add: outcome_of_def)
next
  case (Write e t)
  obtain r s' where a: "Entity_write e t s = (r, s')" by (cases "Entity_write e t s")
  from flags_only_store_ok [OF Entity_write_frame [OF a] assms] a Write show ?thesis
    by (cases r) (simp_all add: outcome_of_def)
next
  case (Delete e)
  obtain r s' where a: "Entity_delete e s = (r, s')" by (cases "Entity_delete e s")
  from flags_only_store_ok [OF Entity_delete_frame [OF a] assms] a Delete show ?thesis
    by (cases r) (simp_all add: outcome_of_def)
next
  case (Bind i)
  from assms have po: "pool_ok s" by (simp add: store_ok_def)
  from bind_ok [OF po, of "Some i"] obtain e s' where
    b: "bind (Some i) s = (Inr e, s')" "pool_ok s'" "handles_only s s'"
    by blast
  from handles_only_store_ok [OF b(3,2) assms] b(1) Bind show ?thesis
    by (simp add: outcome_of_def)
next
  case Flush
  with assms show ?thesis by (simp add: flush_def dispatcher_update_store_ok)
next
  case (SetMasks rw)
  with assms show ?thesis by (simp add: dispatcher_update_store_ok)
next
  case Step
  obtain r s' where a: "step s = (r, s')" by (cases "step s")
  from step_store_ok [OF assms a] a Step show ?thesis
    by (cases r) (simp_all add: outcome_of_def)
qed

lemma run_store_ok:
  assumes "store_ok s"
  shows "\<exists>outs s'. run ops s = Some (outs, s') \<and> store_ok s'"
  using assms
proof (induction ops arbitrary: s)
  case Nil
  then show ?case by simp
next
  case (Cons x xs)
  from exec_store_ok [OF Cons.prems, of x] obtain out s1 where
    x: "exec x s = Some (out, s1)" "store_ok s1" by blast
  from Cons.IH [OF x(2)] obtain outs s' where "run xs s1 = Some (outs, s')" "store_ok s'"
    by blast
  with x(1) show ?case by simp
qed

lemma run_new_store_ok:
  assumes "1 \<le> maxEntities" and "distinct ts"
    and "new_Entities maxEntities ts schema d = Inr s"
  shows "store_ok s \<and> (\<exists>outs s'. run ops s = Some (outs, s') \<and> store_ok s')"
proof -
  from new_Entities_ok [OF assms(3)] assms(1,2) have "store_ok s"
    by (simp add: store_ok_def)
  with run_store_ok [of s ops] show ?thesis by simp
qed

subsection \<open>What extendMaskAndSetFlag does\<close>

lemma arr_fill_noop: "fin \<le> start \<Longrightarrow> arr_fill m v start fin = m"
  by (auto simp add: arr_fill_def Let_def intro!: nth_equalityI)

lemma extendMaskAndSetFlag_result:
  assumes "map_of (controllers s) t = Some ctrl"
  shows "extendMaskAndSetFlag s m t
           = Inr ((if flagOffset ctrl \<ge> length m
                   then m @ replicate (flagOffset ctrl + 1 - length m) None else m)
                  [flagOffset ctrl := Some (sint (ToInt32 (arr_get m (flagOffset ctrl)) OR flagMask ctrl))])"
  using assms
  by (auto simp add: extendMaskAndSetFlag_def Let_def arr_set_length_def arr_fill_noop arr_put_def
      arr_get_def nth_append)

text \<open>
  Apart from the gap, \<open>extendMaskAndSetFlag\<close> does what is expected of it: the mask
  grows to cover the offset, the words that were there keep their value, the bit of the
  type is set and \<open>maskHasFlag\<close> finds it.  The words of the gap are holes.
\<close>

lemma extendMaskAndSetFlag_sets_flag:
  assumes "map_of (controllers s) t = Some ctrl" and "flagMask ctrl \<noteq> 0"
  shows "\<exists>m'. extendMaskAndSetFlag s m t = Inr m' \<and>
           length m' = max (length m) (flagOffset ctrl + 1) \<and>
           (\<forall>k < length m. k \<noteq> flagOffset ctrl \<longrightarrow> m' ! k = m ! k) \<and>
           (\<forall>k. length m \<le> k \<and> k < flagOffset ctrl \<longrightarrow> m' ! k = None) \<and>
           ToInt32 (m' ! flagOffset ctrl) = ToInt32 (arr_get m (flagOffset ctrl)) OR flagMask ctrl \<and>
           maskHasFlag s m' t = Inr True"
proof -
  let ?off = "flagOffset ctrl"
  let ?w = "ToInt32 (arr_get m ?off) OR flagMask ctrl"
  let ?m1 = "if ?off \<ge> length m then m @ replicate (?off + 1 - length m) None else m"
  let ?m' = "?m1[?off := Some (sint ?w)]"
  have r: "extendMaskAndSetFlag s m t = Inr ?m'"
    by (rule extendMaskAndSetFlag_result [OF assms(1)])
  have len: "length ?m' = max (length m) (?off + 1)" by auto
  have lt: "?off < length ?m'" by auto
  have w: "ToInt32 (?m' ! ?off) = ?w"
    using lt by (simp add: ToInt32_def)
  have "(?w AND flagMask ctrl) = flagMask ctrl"
    by (simp add: bit_eq_iff bit_and_iff bit_or_iff)
  with assms(2) have "sint (?w AND flagMask ctrl) \<noteq> 0" by (simp add: signed_eq_0_iff)
  then have hf: "maskHasFlag s ?m' t = Inr True"
    using lt w assms(1) by (simp add: maskHasFlag_def arr_get_def)
  have keep: "\<forall>k < length m. k \<noteq> ?off \<longrightarrow> ?m' ! k = m ! k"
    by (auto simp add: nth_append)
  have gap: "\<forall>k. length m \<le> k \<and> k < ?off \<longrightarrow> ?m' ! k = None"
    by (auto simp add: nth_append)
  from r len keep gap w hf show ?thesis by blast
qed

subsection \<open>The kernel with one flag word for each slot\<close>

lemma u32_unat: "x < 2 ^ 32 \<Longrightarrow> unat (of_nat x :: u32) = x"
  by (simp add: unat_of_nat)

lemma u32_inj:
  assumes "x < 2 ^ 32" and "y < 2 ^ 32"
  shows "(of_nat x :: u32) = of_nat y \<longleftrightarrow> x = y"
proof
  assume "(of_nat x :: u32) = of_nat y"
  then have "unat (of_nat x :: u32) = unat (of_nat y :: u32)" by simp
  with assms show "x = y" by (simp add: u32_unat)
qed simp

lemma put_ids_length: "length (put_ids mem a xs) = length mem"
  by (induction xs arbitrary: mem a) simp_all

lemma put_ids_below: "j < a \<Longrightarrow> put_ids mem a xs ! j = mem ! j"
  by (induction xs arbitrary: mem a) simp_all

lemma put_ids_at:
  "a + length xs \<le> length mem \<Longrightarrow> t < length xs \<Longrightarrow> put_ids mem a xs ! (a + t) = of_nat (xs ! t)"
proof (induction xs arbitrary: mem a t)
  case Nil
  then show ?case by simp
next
  case (Cons x xs)
  show ?case
  proof (cases t)
    case 0
    with Cons.prems show ?thesis by (simp add: put_ids_below)
  next
    case (Suc t')
    with Cons.prems Cons.IH [of "a + 1" "mem[a := of_nat x]" t'] show ?thesis by simp
  qed
qed

lemma take_drop_put_ids:
  assumes "a + length xs \<le> length mem"
  shows "take (length xs) (drop a (put_ids mem a xs)) = map of_nat xs"
proof (rule nth_equalityI)
  show "length (take (length xs) (drop a (put_ids mem a xs))) = length (map of_nat xs)"
    using assms by (simp add: put_ids_length)
next
  fix t assume "t < length (take (length xs) (drop a (put_ids mem a xs)))"
  then have t: "t < length xs" by simp
  with assms show "take (length xs) (drop a (put_ids mem a xs)) ! t = map of_nat xs ! t"
    by (simp add: put_ids_length put_ids_at)
qed

lemma wasm_loop_scan:
  assumes "1 \<le> i" and "i < n" and "k < i" and "4 * n \<le> length mem + 1"
    and "length mem \<le> 2 ^ 30"
  shows "wasm_loop (of_nat (4 * n)) pos neg mem (of_nat i) (of_nat k) (of_nat (4 * i)) pv
           (of_nat (12 * n + 4 * k))
         = Some (put_ids mem (3 * n + k) (filter (\<lambda>j. kernel_test pos neg (mem ! j)) [i..<n]),
                 Some (of_nat (k + length (filter (\<lambda>j. kernel_test pos neg (mem ! j)) [i..<n]))))"
  using assms
proof (induction "n - i" arbitrary: i k mem pv)
  case 0
  then show ?case by simp
next
  case (Suc d)
  let ?P = "\<lambda>m j. kernel_test pos neg (m ! j)"
  have bounds: "4 * i < 2 ^ 32" "4 * i + 4 \<le> 4 * length mem" "4 * n < 2 ^ 32"
    "12 * n + 4 * k < 2 ^ 32" "12 * n + 4 * k + 4 \<le> 4 * length mem" "3 * n + k < length mem"
    "4 * (i + 1) < 2 ^ 32"
    using Suc.prems by simp_all
  have ld: "mem_load mem (of_nat (4 * i)) = Some (mem ! i)"
    using bounds by (simp add: mem_load_def u32_unat del: of_nat_mult of_nat_add)
  have upt: "[i..<n] = i # [i + 1..<n]"
    using Suc.prems(2) by (simp add: upt_conv_Cons)
  have last_iff: "(of_nat (4 * i) + 4 = (of_nat (4 * n) :: u32)) \<longleftrightarrow> i + 1 = n"
  proof -
    have "(of_nat (4 * i) + 4 :: u32) = of_nat (4 * (i + 1))" by simp
    moreover have "(4 * (i + 1) = 4 * n) \<longleftrightarrow> i + 1 = n" by arith
    ultimately show ?thesis
      using u32_inj [OF bounds(7) bounds(3)] by (simp only:)
  qed
  show ?case
  proof (cases "kernel_test pos neg (mem ! i)")
    case True
    let ?mem1 = "mem[3 * n + k := of_nat i]"
    have st: "mem_store mem (of_nat (12 * n + 4 * k)) (of_nat i) = Some ?mem1"
    proof -
      have "(12 * n + 4 * k) div 4 = 3 * n + k" by simp
      with bounds show ?thesis
        by (simp add: mem_store_def u32_unat del: of_nat_mult of_nat_add)
    qed
    have same: "\<And>j. j < n \<Longrightarrow> ?mem1 ! j = mem ! j"
      using Suc.prems by simp
    have filt1: "filter (?P ?mem1) [i + 1..<n] = filter (?P mem) [i + 1..<n]"
      by (rule filter_cong) (simp_all add: same)
    have unfold1: "wasm_loop (of_nat (4 * n)) pos neg mem (of_nat i) (of_nat k) (of_nat (4 * i)) pv
           (of_nat (12 * n + 4 * k))
         = (if i + 1 = n then Some (?mem1, Some (of_nat k + 1))
            else wasm_loop (of_nat (4 * n)) pos neg ?mem1 (of_nat i + 1) (of_nat k + 1)
                   (of_nat (4 * i) + 4) (pv + 4) (of_nat (12 * n + 4 * k) + 4))"
      using True
      by (subst wasm_loop.simps)
         (simp add: ld st last_iff kernel_test_def del: of_nat_mult of_nat_add)
    show ?thesis
    proof (cases "i + 1 = n")
      case last: True
      then have "[i + 1..<n] = []" by simp
      with unfold1 last True upt show ?thesis by (simp del: of_nat_mult of_nat_add)
    next
      case more: False
      have d: "d = n - (i + 1)" using Suc.hyps(2) by simp
      have pre: "1 \<le> i + 1" "i + 1 < n" "k + 1 < i + 1" "4 * n \<le> length ?mem1 + 1"
        "length ?mem1 \<le> 2 ^ 30"
        using Suc.prems more by simp_all
      have conv: "(of_nat i + 1 :: u32) = of_nat (i + 1)" "(of_nat k + 1 :: u32) = of_nat (k + 1)"
        "(of_nat (4 * i) + 4 :: u32) = of_nat (4 * (i + 1))"
        "(of_nat (12 * n + 4 * k) + 4 :: u32) = of_nat (12 * n + 4 * (k + 1))"
        by simp_all
      from Suc.hyps(1) [OF d pre, of "pv + 4"]
      have "wasm_loop (of_nat (4 * n)) pos neg ?mem1 (of_nat (i + 1)) (of_nat (k + 1))
              (of_nat (4 * (i + 1))) (pv + 4) (of_nat (12 * n + 4 * (k + 1)))
            = Some (put_ids ?mem1 (3 * n + (k + 1)) (filter (?P ?mem1) [i + 1..<n]),
                    Some (of_nat (k + 1 + length (filter (?P ?mem1) [i + 1..<n]))))" .
      with unfold1 more True upt filt1 show ?thesis
        by (simp only: conv) (simp add: add.assoc del: of_nat_mult of_nat_add)
    qed
  next
    case False
    have unfold0: "wasm_loop (of_nat (4 * n)) pos neg mem (of_nat i) (of_nat k) (of_nat (4 * i)) pv
           (of_nat (12 * n + 4 * k))
         = (if i + 1 = n then Some (mem, Some (of_nat k))
            else wasm_loop (of_nat (4 * n)) pos neg mem (of_nat i + 1) (of_nat k)
                   (of_nat (4 * i) + 4) (pv + 4) (of_nat (12 * n + 4 * k)))"
      using False
      by (subst wasm_loop.simps)
         (auto simp add: ld last_iff kernel_test_def simp del: of_nat_mult of_nat_add)
    show ?thesis
    proof (cases "i + 1 = n")
      case last: True
      then have "[i + 1..<n] = []" by simp
      with unfold0 last False upt show ?thesis by (simp del: of_nat_mult of_nat_add)
    next
      case more: False
      have d: "d = n - (i + 1)" using Suc.hyps(2) by simp
      have pre: "1 \<le> i + 1" "i + 1 < n" "k < i + 1" "4 * n \<le> length mem + 1"
        "length mem \<le> 2 ^ 30"
        using Suc.prems more by simp_all
      have conv: "(of_nat i + 1 :: u32) = of_nat (i + 1)"
        "(of_nat (4 * i) + 4 :: u32) = of_nat (4 * (i + 1))"
        by simp_all
      from Suc.hyps(1) [OF d pre, of "pv + 4"]
      have "wasm_loop (of_nat (4 * n)) pos neg mem (of_nat (i + 1)) (of_nat k)
              (of_nat (4 * (i + 1))) (pv + 4) (of_nat (12 * n + 4 * k))
            = Some (put_ids mem (3 * n + k) (filter (?P mem) [i + 1..<n]),
                    Some (of_nat (k + length (filter (?P mem) [i + 1..<n]))))" .
      with unfold0 more False upt show ?thesis
        by (simp only: conv) (simp del: of_nat_mult of_nat_add)
    qed
  qed
qed

lemma sint_zero_iff: "sint (w :: u32) = 0 \<longleftrightarrow> w = 0"
  by (simp add: signed_eq_0_iff)

lemma matchCurrent_one_word:
  assumes "stride s = 1" and "j < length (current s)"
    and "one_word_pos pm" and "one_word_neg nm"
  shows "matchCurrent s j pm nm
           \<longleftrightarrow> kernel_test (word_of_int (first_word pm)) (word_of_int (first_word nm))
                 (current s ! j)"
proof -
  let ?w = "current s ! j"
  have pos: "(case pm of None \<Rightarrow> False | Some p \<Rightarrow> \<not> match_pos (current s) (j * stride s) p 0)
      \<longleftrightarrow> \<not> (?w AND word_of_int (first_word pm)) = word_of_int (first_word pm)"
    using assms(3) unfolding one_word_pos_def
  proof (elim disjE exE conjE)
    assume "pm = None"
    then show ?thesis by (simp add: first_word_def)
  next
    assume "pm = Some []"
    then show ?thesis by (simp add: first_word_def arr_get_def)
  next
    fix v assume pv: "pm = Some [Some v]" and lo: "- (2 ^ 31) \<le> v" and hi: "v < 2 ^ 31"
    from covered_int32 [OF lo hi, of ?w] pv assms(1,2) show ?thesis
      by (simp add: first_word_def arr_get_def ta_get_def elem_bits_def)
  qed
  have neg: "(case nm of None \<Rightarrow> False | Some q \<Rightarrow> \<not> match_neg (current s) (j * stride s) q 0)
      \<longleftrightarrow> \<not> (?w AND word_of_int (first_word nm)) = 0"
    using assms(4) unfolding one_word_neg_def
  proof (elim disjE exE)
    assume "nm = None"
    then show ?thesis by (simp add: first_word_def)
  next
    assume "nm = Some []"
    then show ?thesis by (simp add: first_word_def arr_get_def)
  next
    fix x assume "nm = Some [x]"
    with assms(1,2) show ?thesis
      by (cases x)
         (simp_all add: first_word_def arr_get_def ta_get_def elem_bits_def ToInt32_def
            sint_zero_iff)
  qed
  show ?thesis
    unfolding matchCurrent_def match_def Let_def kernel_test_def
    using pos neg by auto
qed

text \<open>
  With a stride of one word the kernel and \<open>matchCurrent\<close> do agree: for masks of at
  most one word, the positive one a signed 32-bit Number, \<open>iterateAll\<close> returns and leaves
  in the scratch view exactly the slots from 1 to \<open>maxEntities\<close> that \<open>matchCurrent\<close>
  accepts, in order.
\<close>

lemma kernel_agrees_for_one_word:
  assumes st: "stride s = 1" and v: "views_ok s" and n2: "2 \<le> maxNum s" and m: "mem_ok s"
    and pm: "one_word_pos pm" and nm: "one_word_neg nm"
  shows "written_ids (iterateAll pm nm s)
           = Some (filter (\<lambda>i. matchCurrent s i pm nm) [1..<maxNum s])"
proof -
  let ?n = "maxNum s"
  let ?M = "memory_of s"
  let ?pos = "word_of_int (first_word pm) :: u32"
  let ?neg = "word_of_int (first_word nm) :: u32"
  let ?ids = "filter (\<lambda>j. kernel_test ?pos ?neg (?M ! j)) [1..<?n]"
  have len: "length (current s) = ?n" "length (previous s) = ?n" "length (mutations s) = ?n"
    "length (filtered s) = ?n - 1" "flagSegmentSize s = 4 * ?n"
    using v st by (simp_all add: views_ok_def)
  have used: "4 * ?n \<le> length ?M + 1"
    using len by (simp add: memory_of_def Let_def)
  have big: "length ?M \<le> 2 ^ 30"
  proof -
    from m have "length ?M = blocks s * 16384" "blocks s \<le> 65536" by (simp_all add: mem_ok_def)
    then have "length ?M \<le> 65536 * 16384" by simp
    then show ?thesis by simp
  qed
  have cur: "\<And>j. j < ?n \<Longrightarrow> ?M ! j = current s ! j"
    using len by (simp add: memory_of_def Let_def nth_append)
  have ids: "?ids = filter (\<lambda>i. matchCurrent s i pm nm) [1..<?n]"
  proof (rule filter_cong)
    fix j assume "j \<in> set [1..<?n]"
    then have j: "j < ?n" by simp
    with matchCurrent_one_word [OF st _ pm nm, of j] len cur [OF j]
    show "kernel_test ?pos ?neg (?M ! j) = matchCurrent s j pm nm" by simp
  qed simp
  have klen: "length ?ids \<le> ?n - 1"
    using length_filter_le [of "\<lambda>j. kernel_test ?pos ?neg (?M ! j)" "[1..<?n]"] by simp
  from wasm_loop_scan [of 1 ?n 0 ?M ?pos ?neg "of_nat (4 * ?n) + 4"] n2 used big
  have loop: "wasm_loop (of_nat (4 * ?n)) ?pos ?neg ?M 1 0 4 (of_nat (4 * ?n) + 4)
           (of_nat (12 * ?n))
         = Some (put_ids ?M (3 * ?n) ?ids, Some (of_nat (length ?ids)))"
    by (simp del: of_nat_mult of_nat_add)
  have seg3: "(of_nat (4 * ?n) * 3 :: u32) = of_nat (12 * ?n)" by simp
  have kernel: "wasm_iterateAll ?M (word_of_nat (flagSegmentSize s)) ?pos ?neg
      = Some (put_ids ?M (3 * ?n) ?ids, Some (of_nat (length ?ids)))"
    unfolding wasm_iterateAll_def len(5) seg3 by (rule loop)
  have small: "length ?ids < 2 ^ 31"
  proof -
    from used big have "?n \<le> 2 ^ 30" by simp
    with klen have "length ?ids \<le> 2 ^ 30" by simp
    then show ?thesis by simp
  qed
  have sn: "sint (of_nat (length ?ids) :: u32) = int (length ?ids)"
  proof -
    have "- (2 ^ 31) \<le> int (length ?ids)" by simp
    moreover have "int (length ?ids) < 2 ^ 31" using small by simp
    ultimately show ?thesis
      by (simp add: signed_of_nat signed_take_bit_int_eq_self)
  qed
  have fit: "3 * ?n + length ?ids \<le> length ?M"
    using klen used n2 by simp
  have tk: "take (length ?ids) (take (?n - 1) (drop (3 * ?n) (put_ids ?M (3 * ?n) ?ids)))
      = map of_nat ?ids"
    using klen take_drop_put_ids [OF fit] by (simp add: min_def)
  have unat_ids: "map unat (map (of_nat :: nat \<Rightarrow> u32) ?ids) = ?ids"
  proof (rule map_idI [of ?ids "unat \<circ> (of_nat :: nat \<Rightarrow> u32)", simplified map_map [symmetric]])
    fix x assume "x \<in> set ?ids"
    then have "x < ?n" by simp
    with used big have "x < 2 ^ 32" by simp
    then show "(unat \<circ> (of_nat :: nat \<Rightarrow> u32)) x = x" by (simp add: u32_unat)
  qed
  have "written_ids (iterateAll pm nm s) = Some ?ids"
    unfolding iterateAll_def written_ids_def kernel
    using sn tk unat_ids len by (simp add: Let_def)
  with ids show ?thesis by simp
qed

lemma pages_cover: "(u :: nat) \<le> (4 * u + 65535) div 65536 * 16384"
proof -
  define x where "x = 4 * u + 65535"
  have "x < 65536 + x div 65536 * 65536"
    by (rule dividend_less_div_times) simp
  then have "u \<le> x div 65536 * 16384" unfolding x_def [symmetric] using x_def by linarith
  then show ?thesis by (simp add: x_def)
qed

text \<open>
  The constructor asks for enough pages.
\<close>

lemma new_Entities_mem_ok:
  assumes "new_Entities maxEntities ts schema d = Inr s"
  shows "mem_ok s"
proof -
  let ?st = "ceil_div (length (add_controllers schema ts 0 [])) 32"
  let ?u = "3 * ((maxEntities + 1) * ?st) + maxEntities"
  let ?q = "ceil_div (3 * ((maxEntities + 1) * ?st * 4) + maxEntities * 4) (2 ^ 16)"
  from assms have s: "blocks s = ?q" "?q \<le> 65536"
    "current s = replicate ((maxEntities + 1) * ?st) 0"
    "previous s = replicate ((maxEntities + 1) * ?st) 0"
    "mutations s = replicate ((maxEntities + 1) * ?st) 0"
    "filtered s = replicate maxEntities 0"
    by (auto simp add: new_Entities_def new_Pool_def Let_def split: if_splits prod.splits)
  have "?q = (4 * ?u + 65535) div 65536"
    by (simp add: ceil_div_def algebra_simps)
  with pages_cover [of ?u] have "?u \<le> ?q * 16384" by simp
  then have "length (memory_of s) = blocks s * 16384"
    by (simp add: memory_of_def Let_def s)
  with s(1,2) show ?thesis by (simp add: mem_ok_def)
qed

end
